theory Spec2Isabelle
  imports Complex_Main
begin

section \<open>Data model (types.ts)\<close>

text \<open>
  JavaScript numbers that carry sizes and offsets are modelled as \<open>real\<close> (exact
  arithmetic, no NaN or infinities); numbers that are used as array indices, counters or
  millisecond timestamps are modelled as \<open>int\<close>, lengths and counts as \<open>nat\<close>.
  A read \<open>xs[i]\<close> of a JavaScript array yields \<open>undefined\<close> outside the array; this
  is \<open>item_at\<close>, which returns \<open>None\<close> there.

  Record fields keep the names of the source where they are unique; the fields \<open>x\<close>,
  \<open>y\<close> of LayoutRect are \<open>rx\<close>, \<open>ry\<close>, the fields \<open>type\<close>, \<open>key\<close>, \<open>section\<close> of
  FlattenedItem are \<open>ftype\<close>, \<open>fkey\<close>, \<open>fsection\<close>, and fields of the section manager and of the
  viewability tracker that repeat a name of the positioner carry the prefix \<open>sm_\<close> or
  \<open>vt_\<close>.
\<close>

record LayoutRect =
  rx :: real
  ry :: real
  width :: real
  height :: real

record 'a Section =
  key :: string
  title :: "string option"
  data :: "'a list"

datatype FlattenedItemType = SectionHeader | Item | SectionFooter

record 'a FlattenedItem =
  ftype :: FlattenedItemType
  fkey :: string
  sectionKey :: string
  sectionIndex :: int
  itemIndex :: int
  item :: "'a option"
  fsection :: "'a Section"

definition item_at :: "'b list \<Rightarrow> int \<Rightarrow> 'b option" where
  "item_at xs i = (if 0 \<le> i \<and> i < int (length xs) then Some (xs ! nat i) else None)"

text \<open>
  The decimal digits of a number, as a template literal renders an integer: the digits
  of the quotient by ten, if there are any, and then the last digit.
\<close>

definition digit_char :: "nat \<Rightarrow> char" where
  "digit_char d = ''0123456789'' ! d"

fun decimal :: "nat \<Rightarrow> string" where
  "decimal n = (if 10 \<le> n then decimal (n div 10) else []) @ [digit_char (n mod 10)]"

declare decimal.simps [simp del]

definition decimal_int :: "int \<Rightarrow> string" where
  "decimal_int i = (if 0 \<le> i then decimal (nat i) else CHR ''-'' # decimal (nat (- i)))"

section \<open>LayoutCache (core/LayoutCache.ts)\<close>

record TypeStats =
  totalSize :: real
  count :: nat

record LayoutCache =
  cache :: "string \<rightharpoonup> LayoutRect"
  typeStats :: "string \<rightharpoonup> TypeStats"

definition createLayoutCache :: LayoutCache where
  "createLayoutCache = \<lparr>cache = Map.empty, typeStats = Map.empty\<rparr>"

definition cache_get :: "LayoutCache \<Rightarrow> string \<Rightarrow> LayoutRect option" where
  "cache_get c k = cache c k"

definition cache_set :: "LayoutCache \<Rightarrow> string \<Rightarrow> LayoutRect \<Rightarrow> LayoutCache" where
  "cache_set c k layout = c\<lparr>cache := (cache c)(k \<mapsto> layout)\<rparr>"


definition cache_delete :: "LayoutCache \<Rightarrow> string \<Rightarrow> LayoutCache" where
  "cache_delete c k = c\<lparr>cache := (cache c)(k := None)\<rparr>"

definition cache_clear :: "LayoutCache \<Rightarrow> LayoutCache" where
  "cache_clear c = c\<lparr>cache := Map.empty, typeStats := Map.empty\<rparr>"

text \<open>The key-to-index map is iterated in insertion order: an association list.\<close>

definition cache_invalidateFrom :: "LayoutCache \<Rightarrow> int \<Rightarrow> (string \<times> int) list \<Rightarrow> LayoutCache" where
  "cache_invalidateFrom c flatIndex keyToIndexMap =
     fold (\<lambda>(k, index) c'. if index \<ge> flatIndex then cache_delete c' k else c') keyToIndexMap c"

definition getAverageSize :: "LayoutCache \<Rightarrow> string \<Rightarrow> real option" where
  "getAverageSize c itemType =
     (case typeStats c itemType of
        None \<Rightarrow> None
      | Some stats \<Rightarrow> if count stats = 0 then None else Some (totalSize stats / real (count stats)))"

definition recordMeasurement :: "LayoutCache \<Rightarrow> string \<Rightarrow> real \<Rightarrow> LayoutCache" where
  "recordMeasurement c itemType sz =
     (let stats = (case typeStats c itemType of
                     None \<Rightarrow> \<lparr>totalSize = 0, count = 0\<rparr>
                   | Some s \<Rightarrow> s)
      in c\<lparr>typeStats := (typeStats c)(itemType \<mapsto>
             \<lparr>totalSize = totalSize stats + sz, count = count stats + 1\<rparr>)\<rparr>)"

section \<open>LinearLayoutPositioner (core/LinearLayoutPositioner.ts)\<close>

text \<open>
  The positioner holds a reference to the layout cache; the cache is a field of its
  state. \<open>getItemType\<close> is the callback given to the constructor.
\<close>

record 'a LinearLayoutPositioner =
  horizontal :: bool
  estimatedItemSize :: real
  estimatedHeaderSize :: real
  estimatedFooterSize :: real
  containerWidth :: real
  containerHeight :: real
  flattenedData :: "'a FlattenedItem list"
  layoutCache :: LayoutCache
  getItemType :: "int \<Rightarrow> string"
  computedLayouts :: "int \<rightharpoonup> LayoutRect"
  totalContentSize :: "real \<times> real"
  layoutsValid :: bool

text \<open>The options of the constructor, each absent (\<open>None\<close>) or given.\<close>

record LinearLayoutPositionerOptions =
  opt_horizontal :: "bool option"
  opt_estimatedItemSize :: "real option"
  opt_estimatedHeaderSize :: "real option"
  opt_estimatedFooterSize :: "real option"
  opt_containerWidth :: "real option"
  opt_containerHeight :: "real option"

definition DEFAULT_ESTIMATED_ITEM_SIZE :: real where "DEFAULT_ESTIMATED_ITEM_SIZE = 50"
definition DEFAULT_ESTIMATED_HEADER_SIZE :: real where "DEFAULT_ESTIMATED_HEADER_SIZE = 40"
definition DEFAULT_ESTIMATED_FOOTER_SIZE :: real where "DEFAULT_ESTIMATED_FOOTER_SIZE = 0"

definition no_options :: LinearLayoutPositionerOptions where
  "no_options = \<lparr>opt_horizontal = None, opt_estimatedItemSize = None,
     opt_estimatedHeaderSize = None, opt_estimatedFooterSize = None,
     opt_containerWidth = None, opt_containerHeight = None\<rparr>"

definition createLayoutPositioner ::
  "LayoutCache \<Rightarrow> (int \<Rightarrow> string) \<Rightarrow> LinearLayoutPositionerOptions \<Rightarrow> 'a LinearLayoutPositioner" where
  "createLayoutPositioner lc git opts =
     \<lparr>horizontal = (case opt_horizontal opts of Some h \<Rightarrow> h | None \<Rightarrow> False),
      estimatedItemSize =
        (case opt_estimatedItemSize opts of Some s \<Rightarrow> s | None \<Rightarrow> DEFAULT_ESTIMATED_ITEM_SIZE),
      estimatedHeaderSize =
        (case opt_estimatedHeaderSize opts of Some s \<Rightarrow> s | None \<Rightarrow> DEFAULT_ESTIMATED_HEADER_SIZE),
      estimatedFooterSize =
        (case opt_estimatedFooterSize opts of Some s \<Rightarrow> s | None \<Rightarrow> DEFAULT_ESTIMATED_FOOTER_SIZE),
      containerWidth = (case opt_containerWidth opts of Some s \<Rightarrow> s | None \<Rightarrow> 0),
      containerHeight = (case opt_containerHeight opts of Some s \<Rightarrow> s | None \<Rightarrow> 0),
      flattenedData = [],
      layoutCache = lc,
      getItemType = git,
      computedLayouts = Map.empty,
      totalContentSize = (0, 0),
      layoutsValid = False\<rparr>"

definition invalidateAll :: "'a LinearLayoutPositioner \<Rightarrow> 'a LinearLayoutPositioner" where
  "invalidateAll p = p\<lparr>computedLayouts := Map.empty, layoutsValid := False\<rparr>"

definition setData :: "'a LinearLayoutPositioner \<Rightarrow> 'a FlattenedItem list \<Rightarrow> 'a LinearLayoutPositioner" where
  "setData p fd = invalidateAll (p\<lparr>flattenedData := fd\<rparr>)"

definition setContainerSize :: "'a LinearLayoutPositioner \<Rightarrow> real \<Rightarrow> real \<Rightarrow> 'a LinearLayoutPositioner" where
  "setContainerSize p w h =
     (if containerWidth p \<noteq> w \<or> containerHeight p \<noteq> h
      then invalidateAll (p\<lparr>containerWidth := w, containerHeight := h\<rparr>)
      else p)"

definition getEstimatedSize :: "'a LinearLayoutPositioner \<Rightarrow> int \<Rightarrow> real" where
  "getEstimatedSize p flatIndex =
     (case item_at (flattenedData p) flatIndex of
        None \<Rightarrow> estimatedItemSize p
      | Some it \<Rightarrow>
          (case getAverageSize (layoutCache p) (getItemType p flatIndex) of
             Some avgSize \<Rightarrow> avgSize
           | None \<Rightarrow>
               if ftype it = SectionHeader then estimatedHeaderSize p
               else if ftype it = SectionFooter then estimatedFooterSize p
               else estimatedItemSize p))"

definition getItemSize :: "'a LinearLayoutPositioner \<Rightarrow> int \<Rightarrow> real" where
  "getItemSize p flatIndex =
     (case item_at (flattenedData p) flatIndex of
        None \<Rightarrow> estimatedItemSize p
      | Some it \<Rightarrow>
          (case cache_get (layoutCache p) (fkey it) of
             Some cached \<Rightarrow> if horizontal p then width cached else height cached
           | None \<Rightarrow> getEstimatedSize p flatIndex))"

text \<open>
  One iteration of the loop of \<open>ensureLayoutsComputed\<close>: the layout of index \<open>i\<close> at
  the running offset, and the offset advanced by the size of the item.
\<close>

definition layout_step ::
  "'a LinearLayoutPositioner \<Rightarrow> real \<Rightarrow> nat \<Rightarrow> (int \<rightharpoonup> LayoutRect) \<times> real \<Rightarrow> (int \<rightharpoonup> LayoutRect) \<times> real" where
  "layout_step p crossAxisSize i st =
     (let sz = getItemSize p (int i);
          offset = snd st;
          layout = (if horizontal p
                    then \<lparr>rx = offset, ry = 0, width = sz, height = crossAxisSize\<rparr>
                    else \<lparr>rx = 0, ry = offset, width = crossAxisSize, height = sz\<rparr>)
      in ((fst st)(int i \<mapsto> layout), offset + sz))"

definition ensureLayoutsComputed :: "'a LinearLayoutPositioner \<Rightarrow> 'a LinearLayoutPositioner" where
  "ensureLayoutsComputed p =
     (if layoutsValid p then p
      else
        let crossAxisSize = (if horizontal p then containerHeight p else containerWidth p);
            res = fold (layout_step p crossAxisSize) [0..<length (flattenedData p)] (Map.empty, 0);
            offset = snd res
        in p\<lparr>computedLayouts := fst res,
             totalContentSize := (if horizontal p then (offset, crossAxisSize)
                                  else (crossAxisSize, offset)),
             layoutsValid := True\<rparr>)"

definition zeroRect :: LayoutRect where
  "zeroRect = \<lparr>rx = 0, ry = 0, width = 0, height = 0\<rparr>"

text \<open>Queries compute the layouts lazily: they return the answer and the new state.\<close>

definition getLayoutForIndex :: "'a LinearLayoutPositioner \<Rightarrow> int \<Rightarrow> LayoutRect \<times> 'a LinearLayoutPositioner" where
  "getLayoutForIndex p index =
     (let p' = ensureLayoutsComputed p
      in ((case computedLayouts p' index of Some r \<Rightarrow> r | None \<Rightarrow> zeroRect), p'))"

definition getContentSize :: "'a LinearLayoutPositioner \<Rightarrow> (real \<times> real) \<times> 'a LinearLayoutPositioner" where
  "getContentSize p = (let p' = ensureLayoutsComputed p in (totalContentSize p', p'))"

function binarySearchStart_loop :: "'a LinearLayoutPositioner \<Rightarrow> real \<Rightarrow> int \<Rightarrow> int \<Rightarrow> int" where
  "binarySearchStart_loop p offset low high =
     (if low < high then
        (let mid = (low + high) div 2 in
         case computedLayouts p mid of
           None \<Rightarrow> binarySearchStart_loop p offset (mid + 1) high
         | Some layout \<Rightarrow>
             (let itemEnd = (if horizontal p then rx layout + width layout
                             else ry layout + height layout)
              in if itemEnd \<le> offset then binarySearchStart_loop p offset (mid + 1) high
                 else binarySearchStart_loop p offset low mid))
      else low)"
  by pat_completeness auto
termination
  by (relation "measure (\<lambda>(p, offset, low, high). nat (high - low))") auto

declare binarySearchStart_loop.simps [simp del]

definition binarySearchStart :: "'a LinearLayoutPositioner \<Rightarrow> real \<Rightarrow> int" where
  "binarySearchStart p offset = binarySearchStart_loop p offset 0 (int (length (flattenedData p)) - 1)"

function binarySearchEnd_loop :: "'a LinearLayoutPositioner \<Rightarrow> real \<Rightarrow> int \<Rightarrow> int \<Rightarrow> int" where
  "binarySearchEnd_loop p offset low high =
     (if low < high then
        (let mid = (low + high + 1) div 2 in
         case computedLayouts p mid of
           None \<Rightarrow> binarySearchEnd_loop p offset low (mid - 1)
         | Some layout \<Rightarrow>
             (let itemStart = (if horizontal p then rx layout else ry layout)
              in if itemStart \<ge> offset then binarySearchEnd_loop p offset low (mid - 1)
                 else binarySearchEnd_loop p offset mid high))
      else high)"
  by pat_completeness auto
termination
  by (relation "measure (\<lambda>(p, offset, low, high). nat (high - low))") auto

declare binarySearchEnd_loop.simps [simp del]

definition binarySearchEnd :: "'a LinearLayoutPositioner \<Rightarrow> real \<Rightarrow> int" where
  "binarySearchEnd p offset = binarySearchEnd_loop p offset 0 (int (length (flattenedData p)) - 1)"

definition getVisibleRange ::
  "'a LinearLayoutPositioner \<Rightarrow> real \<Rightarrow> real \<Rightarrow> real \<Rightarrow> (int \<times> int) \<times> 'a LinearLayoutPositioner" where
  "getVisibleRange p scrollOffset viewportSize overscan =
     (let p' = ensureLayoutsComputed p in
      if length (flattenedData p') = 0 then ((0, -1), p')
      else
        let startOffset = max 0 (scrollOffset - overscan);
            endOffset = scrollOffset + viewportSize + overscan;
            startIndex = binarySearchStart p' startOffset;
            endIndex = binarySearchEnd p' endOffset
        in ((max 0 startIndex, min (int (length (flattenedData p')) - 1) endIndex), p'))"

definition invalidateFrom :: "'a LinearLayoutPositioner \<Rightarrow> int \<Rightarrow> 'a LinearLayoutPositioner" where
  "invalidateFrom p index =
     p\<lparr>computedLayouts :=
          fold (\<lambda>i m. m(i := None)) [index..int (length (flattenedData p)) - 1] (computedLayouts p),
       layoutsValid := False\<rparr>"

definition updateItemLayout :: "'a LinearLayoutPositioner \<Rightarrow> int \<Rightarrow> LayoutRect \<Rightarrow> 'a LinearLayoutPositioner" where
  "updateItemLayout p index layout =
     (case item_at (flattenedData p) index of
        None \<Rightarrow> p
      | Some it \<Rightarrow>
          (let itemType = getItemType p index;
               sz = (if horizontal p then width layout else height layout);
               lc1 = recordMeasurement (layoutCache p) itemType sz;
               lc2 = cache_set lc1 (fkey it) layout
           in invalidateFrom (p\<lparr>layoutCache := lc2\<rparr>) index))"

definition getIndexForOffset :: "'a LinearLayoutPositioner \<Rightarrow> real \<Rightarrow> int \<times> 'a LinearLayoutPositioner" where
  "getIndexForOffset p offset =
     (let p' = ensureLayoutsComputed p in
      if length (flattenedData p') = 0 then (0, p') else (binarySearchStart p' offset, p'))"

definition getTotalItemCount :: "'a LinearLayoutPositioner \<Rightarrow> nat" where
  "getTotalItemCount p = length (flattenedData p)"

section \<open>Flattening utilities (utils/flattenSections.ts)\<close>

record FlattenOptions =
  fo_collapsedSections :: "string set option"
  fo_includeSectionFooters :: "bool option"

definition flattenSections_step ::
  "'a Section list \<Rightarrow> string set \<Rightarrow> bool \<Rightarrow> nat \<Rightarrow> 'a FlattenedItem list \<Rightarrow> 'a FlattenedItem list" where
  "flattenSections_step sections collapsed includeSectionFooters sectionIdx result =
     (let sec = sections ! sectionIdx;
          isCollapsed = (key sec \<in> collapsed);
          result1 = result @ [\<lparr>ftype = SectionHeader, fkey = ''header-'' @ key sec,
                       sectionKey = key sec, sectionIndex = int sectionIdx, itemIndex = -1,
                       item = None, fsection = sec\<rparr>]
      in if \<not> isCollapsed then
           (let result2 = fold (\<lambda>itemIdx res. res @
                    [\<lparr>ftype = Item,
                      fkey = ''item-'' @ key sec @ ''-'' @ decimal itemIdx,
                      sectionKey = key sec, sectionIndex = int sectionIdx,
                      itemIndex = int itemIdx, item = Some (data sec ! itemIdx),
                      fsection = sec\<rparr>]) [0..<length (data sec)] result1
            in if includeSectionFooters then
                 result2 @ [\<lparr>ftype = SectionFooter, fkey = ''footer-'' @ key sec,
                       sectionKey = key sec, sectionIndex = int sectionIdx, itemIndex = -1,
                       item = None, fsection = sec\<rparr>]
               else result2)
         else result1)"

definition flattenSections :: "'a Section list \<Rightarrow> FlattenOptions \<Rightarrow> 'a FlattenedItem list" where
  "flattenSections sections options =
     (let collapsed = (case fo_collapsedSections options of Some c \<Rightarrow> c | None \<Rightarrow> {});
          includeSectionFooters = (case fo_includeSectionFooters options of Some b \<Rightarrow> b | None \<Rightarrow> False)
      in fold (flattenSections_step sections collapsed includeSectionFooters) [0..<length sections] [])"

text \<open>
  The standalone \<open>getFlatIndex\<close> of the utilities. Reading \<open>sections[i].key\<close> beyond the
  array raises a TypeError: the result is \<open>None\<close> there.
\<close>

definition getFlatIndex_util ::
  "'a Section list \<Rightarrow> int \<Rightarrow> int \<Rightarrow> string set \<Rightarrow> bool \<Rightarrow> int option" where
  "getFlatIndex_util sections sectionIdx itemIdx collapsed includeSectionFooters =
     (let flatIndex1 = fold (\<lambda>i acc.
            case acc of
              None \<Rightarrow> None
            | Some flatIndex \<Rightarrow>
                (case item_at sections i of
                   None \<Rightarrow> None
                 | Some sec \<Rightarrow>
                     if key sec \<notin> collapsed
                     then Some (flatIndex + 1 + int (length (data sec))
                                + (if includeSectionFooters then 1 else 0))
                     else Some (flatIndex + 1))) [0..sectionIdx - 1] (Some 0)
      in case flatIndex1 of
           None \<Rightarrow> None
         | Some flatIndex \<Rightarrow>
             if itemIdx \<ge> 0 then
               (case item_at sections sectionIdx of
                  None \<Rightarrow> None
                | Some sec \<Rightarrow>
                    if key sec \<notin> collapsed then Some (flatIndex + 1 + itemIdx)
                    else Some (flatIndex + 1))
             else Some (flatIndex + 1))"

section \<open>SectionLayoutManager (core/SectionLayoutManager.ts)\<close>

record SectionBoundary =
  b_sectionIndex :: int
  b_sectionKey :: string
  headerFlatIndex :: int
  firstItemFlatIndex :: int
  lastItemFlatIndex :: int
  footerFlatIndex :: "int option"
  itemCount :: int

text \<open>
  The manager's map \<open>flatIndexToSection\<close> is written by \<open>updateData\<close> and read by no
  method; it is left out of the state. The layout cache of the manager is the one its
  positioner holds. The callback the manager gives its positioner reads the manager's
  current flattened data, so \<open>updateData\<close> installs the callback for the new data.
\<close>

record 'a SectionLayoutManager =
  sm_sections :: "'a Section list"
  sm_flattenedData :: "'a FlattenedItem list"
  collapsedSections :: "string set"
  sectionBoundaries :: "string \<rightharpoonup> SectionBoundary"
  layoutPositioner :: "'a LinearLayoutPositioner"
  sm_horizontal :: bool
  hasSectionFooters :: bool

definition getItemTypeForIndex :: "'a FlattenedItem list \<Rightarrow> int \<Rightarrow> string" where
  "getItemTypeForIndex fd flatIndex =
     (case item_at fd flatIndex of
        None \<Rightarrow> ''default''
      | Some it \<Rightarrow>
          if ftype it = SectionHeader then ''__section_header__''
          else if ftype it = SectionFooter then ''__section_footer__''
          else ''default'')"

record SectionLayoutManagerOptions =
  smo_horizontal :: "bool option"
  smo_estimatedItemSize :: "real option"
  smo_estimatedHeaderSize :: "real option"
  smo_estimatedFooterSize :: "real option"
  smo_hasSectionFooters :: "bool option"

definition createSectionLayoutManager ::
  "LayoutCache \<Rightarrow> SectionLayoutManagerOptions \<Rightarrow> 'a SectionLayoutManager" where
  "createSectionLayoutManager lc opts =
     (let h = (case smo_horizontal opts of Some b \<Rightarrow> b | None \<Rightarrow> False)
      in \<lparr>sm_sections = [], sm_flattenedData = [], collapsedSections = {},
          sectionBoundaries = Map.empty,
          layoutPositioner = createLayoutPositioner lc (getItemTypeForIndex ([] :: 'a FlattenedItem list))
            \<lparr>opt_horizontal = Some h,
             opt_estimatedItemSize = smo_estimatedItemSize opts,
             opt_estimatedHeaderSize = smo_estimatedHeaderSize opts,
             opt_estimatedFooterSize = smo_estimatedFooterSize opts,
             opt_containerWidth = None, opt_containerHeight = None\<rparr>,
          sm_horizontal = h,
          hasSectionFooters = (case smo_hasSectionFooters opts of Some b \<Rightarrow> b | None \<Rightarrow> False)\<rparr>)"

text \<open>
  One iteration of the outer loop of \<open>updateData\<close>, on the triple of the flattened data
  built so far, the boundaries recorded so far and the running flat index. The boundary
  object is stored under the section's key at the end of the iteration, with the fields
  it has then.
\<close>

definition updateData_step ::
  "'a Section list \<Rightarrow> string set \<Rightarrow> bool \<Rightarrow> nat \<Rightarrow>
   'a FlattenedItem list \<times> (string \<rightharpoonup> SectionBoundary) \<times> int \<Rightarrow>
   'a FlattenedItem list \<times> (string \<rightharpoonup> SectionBoundary) \<times> int" where
  "updateData_step sections collapsed footers sectionIdx st =
     (let fd = fst st; sb = fst (snd st); flatIndex = snd (snd st);
          sec = sections ! sectionIdx;
          isCollapsed = (key sec \<in> collapsed);
          boundary = \<lparr>b_sectionIndex = int sectionIdx, b_sectionKey = key sec,
                      headerFlatIndex = flatIndex, firstItemFlatIndex = -1,
                      lastItemFlatIndex = -1, footerFlatIndex = None, itemCount = 0\<rparr>;
          fd1 = fd @ [\<lparr>ftype = SectionHeader, fkey = ''header-'' @ key sec,
                       sectionKey = key sec, sectionIndex = int sectionIdx, itemIndex = -1,
                       item = None, fsection = sec\<rparr>];
          flatIndex1 = flatIndex + 1
      in if \<not> isCollapsed then
           (let boundary1 = boundary\<lparr>firstItemFlatIndex := flatIndex1\<rparr>;
                inner = fold (\<lambda>itemIdx acc.
                    (fst acc @ [\<lparr>ftype = Item,
                        fkey = ''item-'' @ key sec @ ''-'' @ decimal itemIdx,
                        sectionKey = key sec, sectionIndex = int sectionIdx,
                        itemIndex = int itemIdx, item = Some (data sec ! itemIdx),
                        fsection = sec\<rparr>], snd acc + 1))
                    [0..<length (data sec)] (fd1, flatIndex1);
                fd2 = fst inner; flatIndex2 = snd inner;
                boundary2 = boundary1\<lparr>lastItemFlatIndex := flatIndex2 - 1,
                                      itemCount := int (length (data sec))\<rparr>
            in if footers then
                 (fd2 @ [\<lparr>ftype = SectionFooter, fkey = ''footer-'' @ key sec,
                       sectionKey = key sec, sectionIndex = int sectionIdx, itemIndex = -1,
                       item = None, fsection = sec\<rparr>],
                  sb(key sec \<mapsto> boundary2\<lparr>footerFlatIndex := Some flatIndex2\<rparr>),
                  flatIndex2 + 1)
               else (fd2, sb(key sec \<mapsto> boundary2), flatIndex2))
         else (fd1, sb(key sec \<mapsto> boundary), flatIndex1))"

definition updateData ::
  "'a SectionLayoutManager \<Rightarrow> 'a Section list \<Rightarrow> string set \<Rightarrow>
   'a FlattenedItem list \<times> 'a SectionLayoutManager" where
  "updateData m sections collapsed =
     (let res = fold (updateData_step sections collapsed (hasSectionFooters m))
                  [0..<length sections] ([], Map.empty, 0);
          fd = fst res
      in (fd, m\<lparr>sm_sections := sections, collapsedSections := collapsed,
                sm_flattenedData := fd, sectionBoundaries := fst (snd res),
                layoutPositioner :=
                  setData ((layoutPositioner m)\<lparr>getItemType := getItemTypeForIndex fd\<rparr>) fd\<rparr>))"

definition getFlatIndex :: "'a SectionLayoutManager \<Rightarrow> int \<Rightarrow> int \<Rightarrow> int" where
  "getFlatIndex m sectionIdx itemIdx =
     (case item_at (sm_sections m) sectionIdx of
        None \<Rightarrow> -1
      | Some sec \<Rightarrow>
          (case sectionBoundaries m (key sec) of
             None \<Rightarrow> -1
           | Some boundary \<Rightarrow>
               if itemIdx = -1 then headerFlatIndex boundary
               else if key sec \<in> collapsedSections m then -1
               else if itemIdx < 0 \<or> itemIdx \<ge> int (length (data sec)) then -1
               else firstItemFlatIndex boundary + itemIdx))"

text \<open>The result of \<open>getSectionItemIndex\<close>: sectionIndex, itemIndex, isHeader, isFooter.\<close>

definition getSectionItemIndex :: "'a SectionLayoutManager \<Rightarrow> int \<Rightarrow> int \<times> int \<times> bool \<times> bool" where
  "getSectionItemIndex m flatIndex =
     (case item_at (sm_flattenedData m) flatIndex of
        None \<Rightarrow> (-1, -1, False, False)
      | Some it \<Rightarrow> (sectionIndex it, itemIndex it, ftype it = SectionHeader, ftype it = SectionFooter))"

definition setSectionCollapsed :: "'a SectionLayoutManager \<Rightarrow> string \<Rightarrow> bool \<Rightarrow> 'a SectionLayoutManager" where
  "setSectionCollapsed m sectionKey' collapsed =
     (let cs = (if collapsed then insert sectionKey' (collapsedSections m)
                else collapsedSections m - {sectionKey'})
      in snd (updateData m (sm_sections m) cs))"

definition isSectionCollapsed :: "'a SectionLayoutManager \<Rightarrow> string \<Rightarrow> bool" where
  "isSectionCollapsed m k = (k \<in> collapsedSections m)"

section \<open>CellRecycler (core/CellRecycler.ts)\<close>

text \<open>
  A maximum pool size is a JavaScript number: a \<open>real\<close>, which may be negative or
  fractional. A cell is identified by its key; its field \<open>flatIndex\<close> is \<open>cell_flatIndex\<close>,
  the field \<open>key\<close> is \<open>ckey\<close>, and the field \<open>type\<close> of a pool is \<open>pool_type\<close>.
\<close>

record RecycledCell =
  ckey :: string
  itemType :: string
  cell_flatIndex :: int

record RecyclePool =
  pool_type :: string
  cells :: "RecycledCell list"
  maxSize :: real

record CellRecycler =
  pools :: "string \<rightharpoonup> RecyclePool"
  inUse :: "string \<rightharpoonup> string set"
  defaultMaxPoolSize :: real
  cellCounter :: nat

definition DEFAULT_MAX_POOL_SIZE :: real where "DEFAULT_MAX_POOL_SIZE = 10"

definition createCellRecycler :: "real \<Rightarrow> CellRecycler" where
  "createCellRecycler dflt =
     \<lparr>pools = Map.empty, inUse = Map.empty, defaultMaxPoolSize = dflt, cellCounter = 0\<rparr>"

definition acquireCell :: "CellRecycler \<Rightarrow> string \<Rightarrow> int \<Rightarrow> RecycledCell option \<times> CellRecycler" where
  "acquireCell r ty fi =
     (case pools r ty of
        None \<Rightarrow> (None, r)
      | Some pool \<Rightarrow>
          if length (cells pool) = 0 then (None, r)
          else
            (let cell = (last (cells pool))\<lparr>cell_flatIndex := fi\<rparr>;
                 pool' = pool\<lparr>cells := butlast (cells pool)\<rparr>;
                 inUseSet = (case inUse r ty of None \<Rightarrow> {} | Some s \<Rightarrow> s)
             in (Some cell,
                 r\<lparr>pools := (pools r)(ty \<mapsto> pool'),
                   inUse := (inUse r)(ty \<mapsto> insert (ckey cell) inUseSet)\<rparr>)))"

definition releaseCell :: "CellRecycler \<Rightarrow> RecycledCell \<Rightarrow> CellRecycler" where
  "releaseCell r cell =
     (let ty = itemType cell; k = ckey cell;
          inUse' = (case inUse r ty of
                      None \<Rightarrow> inUse r
                    | Some s \<Rightarrow> (inUse r)(ty \<mapsto> s - {k}));
          pool = (case pools r ty of
                    None \<Rightarrow> \<lparr>pool_type = ty, cells = [], maxSize = defaultMaxPoolSize r\<rparr>
                  | Some pl \<Rightarrow> pl);
          pool' = (if real (length (cells pool)) < maxSize pool
                   then pool\<lparr>cells := cells pool @ [cell]\<rparr> else pool)
      in r\<lparr>pools := (pools r)(ty \<mapsto> pool'), inUse := inUse'\<rparr>)"

definition clearPools :: "CellRecycler \<Rightarrow> CellRecycler" where
  "clearPools r = r\<lparr>pools := Map.empty, inUse := Map.empty\<rparr>"

text \<open>
  The loop of \<open>setMaxPoolSize\<close> that pops cells while the pool is longer than its maximum.
  Popping an empty array leaves it empty, so for a negative maximum the loop does not
  end: the result is \<open>None\<close> then.
\<close>

partial_function (option) trim_pool :: "RecycledCell list \<Rightarrow> real \<Rightarrow> RecycledCell list option" where
  "trim_pool cs n = (if real (length cs) > n then trim_pool (butlast cs) n else Some cs)"

text \<open>\<open>setMaxPoolSize\<close> returns \<open>None\<close> when its loop does not end.\<close>

definition setMaxPoolSize :: "CellRecycler \<Rightarrow> string \<Rightarrow> real \<Rightarrow> CellRecycler option" where
  "setMaxPoolSize r ty n =
     (case pools r ty of
        None \<Rightarrow> Some (r\<lparr>pools := (pools r)(ty \<mapsto> \<lparr>pool_type = ty, cells = [], maxSize = n\<rparr>)\<rparr>)
      | Some pool \<Rightarrow>
          (case trim_pool (cells pool) n of
             None \<Rightarrow> None
           | Some cs \<Rightarrow> Some (r\<lparr>pools := (pools r)(ty \<mapsto> pool\<lparr>maxSize := n, cells := cs\<rparr>)\<rparr>)))"

definition generateCellKey :: "CellRecycler \<Rightarrow> string \<Rightarrow> string \<times> CellRecycler" where
  "generateCellKey r ty =
     (let r' = r\<lparr>cellCounter := cellCounter r + 1\<rparr>
      in (ty @ ''-'' @ decimal (cellCounter r'), r'))"

definition createCell :: "CellRecycler \<Rightarrow> string \<Rightarrow> int \<Rightarrow> RecycledCell \<times> CellRecycler" where
  "createCell r ty fi =
     (let kr = generateCellKey r ty;
          k = fst kr; r1 = snd kr;
          cell = \<lparr>ckey = k, itemType = ty, cell_flatIndex = fi\<rparr>;
          inUseSet = (case inUse r1 ty of None \<Rightarrow> {} | Some s \<Rightarrow> s)
      in (cell, r1\<lparr>inUse := (inUse r1)(ty \<mapsto> insert k inUseSet)\<rparr>))"

definition getCell :: "CellRecycler \<Rightarrow> string \<Rightarrow> int \<Rightarrow> RecycledCell \<times> CellRecycler" where
  "getCell r ty fi =
     (case acquireCell r ty fi of
        (Some recycled, r') \<Rightarrow> (recycled, r')
      | (None, r') \<Rightarrow> createCell r' ty fi)"

text \<open>
  Calls of a client, and a run of them. Beside the recycler the run keeps the list of
  the cells that were handed out and not released since. A call that does not return
  ends the run with \<open>None\<close>. A run is \<open>well_paired\<close> when every release gives back one of
  the cells handed out and not released since.
\<close>

datatype recycler_call =
    AcquireCell string int
  | GetCell string int
  | ReleaseCell RecycledCell
  | SetMaxPoolSize string real

fun recycler_step ::
  "CellRecycler \<times> RecycledCell list \<Rightarrow> recycler_call \<Rightarrow> (CellRecycler \<times> RecycledCell list) option" where
  "recycler_step (r, out) (AcquireCell ty fi) =
     (case acquireCell r ty fi of
        (None, r') \<Rightarrow> Some (r', out)
      | (Some c, r') \<Rightarrow> Some (r', c # out))"
| "recycler_step (r, out) (GetCell ty fi) = Some (snd (getCell r ty fi), fst (getCell r ty fi) # out)"
| "recycler_step (r, out) (ReleaseCell c) = Some (releaseCell r c, remove1 c out)"
| "recycler_step (r, out) (SetMaxPoolSize ty n) =
     (case setMaxPoolSize r ty n of None \<Rightarrow> None | Some r' \<Rightarrow> Some (r', out))"

fun recycler_steps ::
  "CellRecycler \<times> RecycledCell list \<Rightarrow> recycler_call list \<Rightarrow> (CellRecycler \<times> RecycledCell list) option" where
  "recycler_steps s [] = Some s"
| "recycler_steps s (call # calls) =
     (case recycler_step s call of None \<Rightarrow> None | Some s' \<Rightarrow> recycler_steps s' calls)"

fun gives_back :: "RecycledCell list \<Rightarrow> recycler_call \<Rightarrow> bool" where
  "gives_back out (ReleaseCell c) = (c \<in> set out)"
| "gives_back out (AcquireCell ty fi) = True"
| "gives_back out (GetCell ty fi) = True"
| "gives_back out (SetMaxPoolSize ty n) = True"

fun well_paired :: "CellRecycler \<times> RecycledCell list \<Rightarrow> recycler_call list \<Rightarrow> bool" where
  "well_paired s [] = True"
| "well_paired s (call # calls) =
     (gives_back (snd s) call
      \<and> (case recycler_step s call of None \<Rightarrow> True | Some s' \<Rightarrow> well_paired s' calls))"

definition recycler_run ::
  "real \<Rightarrow> recycler_call list \<Rightarrow> (CellRecycler \<times> RecycledCell list) option" where
  "recycler_run dflt calls = recycler_steps (createCellRecycler dflt, []) calls"

section \<open>ViewabilityTracker (core/ViewabilityTracker.ts)\<close>

text \<open>
  Timestamps (\<open>Date.now()\<close>) and \<open>minimumViewTime\<close> are milliseconds: \<open>int\<close>. The set
  \<open>currentlyViewable\<close> is iterated in insertion order: a list without repetitions. The
  tracker holds a reference to the positioner, whose lazy layout computation the queries
  of a pass may trigger: the positioner is a field of the tracker's state. The pending
  zero-delay timer is the flag \<open>pendingUpdate\<close>; \<open>timer_fires\<close> is the timer's callback,
  run by the host at the time \<open>now\<close>. A pass returns the notification it gives to every
  registered callback, \<open>None\<close> when it notifies nobody.
\<close>

record TrackedItem =
  t_flatIndex :: int
  t_isViewable :: bool
  lastVisibleTime :: int
  becameVisibleAt :: "int option"

record ViewabilityConfig =
  minimumViewTime :: int
  viewAreaCoveragePercentThreshold :: real
  itemVisiblePercentThreshold :: real
  waitForInteraction :: bool

record 'a ViewToken =
  tok_item :: "'a option"
  tok_key :: string
  tok_index :: int
  isViewable :: bool
  tok_section :: "'a Section option"

record 'a ViewabilityTracker =
  config :: ViewabilityConfig
  vt_layoutPositioner :: "'a LinearLayoutPositioner"
  vt_flattenedData :: "'a FlattenedItem list"
  vt_horizontal :: bool
  scrollOffset :: real
  viewportSize :: real
  trackedItems :: "int \<rightharpoonup> TrackedItem"
  currentlyViewable :: "int list"
  hasInteracted :: bool
  pendingUpdate :: bool

definition DEFAULT_VIEWABILITY_CONFIG :: ViewabilityConfig where
  "DEFAULT_VIEWABILITY_CONFIG =
     \<lparr>minimumViewTime = 250, viewAreaCoveragePercentThreshold = 0,
      itemVisiblePercentThreshold = 50, waitForInteraction = False\<rparr>"

definition createViewabilityTracker ::
  "'a LinearLayoutPositioner \<Rightarrow> 'a FlattenedItem list \<Rightarrow> ViewabilityConfig \<Rightarrow> bool \<Rightarrow> 'a ViewabilityTracker" where
  "createViewabilityTracker lp fd cfg hor =
     \<lparr>config = cfg, vt_layoutPositioner = lp, vt_flattenedData = fd, vt_horizontal = hor,
      scrollOffset = 0, viewportSize = 0, trackedItems = Map.empty, currentlyViewable = [],
      hasInteracted = False, pendingUpdate = False\<rparr>"

definition scheduleUpdate :: "'a ViewabilityTracker \<Rightarrow> 'a ViewabilityTracker" where
  "scheduleUpdate t = (if pendingUpdate t then t else t\<lparr>pendingUpdate := True\<rparr>)"

definition vt_setData :: "'a ViewabilityTracker \<Rightarrow> 'a FlattenedItem list \<Rightarrow> 'a ViewabilityTracker" where
  "vt_setData t fd =
     scheduleUpdate (t\<lparr>vt_flattenedData := fd, trackedItems := Map.empty, currentlyViewable := []\<rparr>)"

definition updateScrollOffset :: "'a ViewabilityTracker \<Rightarrow> real \<Rightarrow> 'a ViewabilityTracker" where
  "updateScrollOffset t offset = scheduleUpdate (t\<lparr>scrollOffset := offset\<rparr>)"

definition setViewportSize :: "'a ViewabilityTracker \<Rightarrow> real \<Rightarrow> 'a ViewabilityTracker" where
  "setViewportSize t sz =
     (if viewportSize t \<noteq> sz then scheduleUpdate (t\<lparr>viewportSize := sz\<rparr>) else t)"

definition recordInteraction :: "'a ViewabilityTracker \<Rightarrow> 'a ViewabilityTracker" where
  "recordInteraction t =
     (if \<not> hasInteracted t then scheduleUpdate (t\<lparr>hasInteracted := True\<rparr>) else t)"

definition isItemViewable :: "'a ViewabilityTracker \<Rightarrow> int \<Rightarrow> LayoutRect \<Rightarrow> bool" where
  "isItemViewable t fi layout =
     (let itemStart = (if vt_horizontal t then rx layout else ry layout);
          itemSize = (if vt_horizontal t then width layout else height layout);
          itemEnd = itemStart + itemSize;
          viewportStart = scrollOffset t;
          viewportEnd = scrollOffset t + viewportSize t;
          visibleStart = max itemStart viewportStart;
          visibleEnd = min itemEnd viewportEnd;
          visibleSize = max 0 (visibleEnd - visibleStart)
      in if itemVisiblePercentThreshold (config t) > 0
            \<and> (if itemSize > 0 then (visibleSize / itemSize) * 100 else 0)
                 < itemVisiblePercentThreshold (config t)
         then False
         else if viewAreaCoveragePercentThreshold (config t) > 0
            \<and> (if viewportSize t > 0 then (visibleSize / viewportSize t) * 100 else 0)
                 < viewAreaCoveragePercentThreshold (config t)
         then False
         else visibleSize > 0)"

definition createViewToken :: "'a ViewabilityTracker \<Rightarrow> int \<Rightarrow> bool \<Rightarrow> 'a ViewToken" where
  "createViewToken t fi v =
     (case item_at (vt_flattenedData t) fi of
        None \<Rightarrow> \<lparr>tok_item = None, tok_key = ''item-'' @ decimal_int fi, tok_index = fi,
                  isViewable = v, tok_section = None\<rparr>
      | Some it \<Rightarrow> \<lparr>tok_item = item it, tok_key = fkey it, tok_index = fi,
                  isViewable = v, tok_section = Some (fsection it)\<rparr>)"

text \<open>
  The state of the two loops of a pass: the new viewable set, the tracked items, the
  changed tokens and the positioner.
\<close>

record 'a pass_state =
  newViewable :: "int list"
  ps_tracked :: "int \<rightharpoonup> TrackedItem"
  changed :: "'a ViewToken list"
  ps_positioner :: "'a LinearLayoutPositioner"

text \<open>One iteration of the first loop: the index \<open>i\<close> of the visible range.\<close>

definition visit_index :: "'a ViewabilityTracker \<Rightarrow> int \<Rightarrow> int \<Rightarrow> 'a pass_state \<Rightarrow> 'a pass_state" where
  "visit_index t now i st =
     (let lr = getLayoutForIndex (ps_positioner st) i;
          layout = fst lr;
          st1 = st\<lparr>ps_positioner := snd lr\<rparr>
      in if isItemViewable t i layout then
           (let nv = (if i \<in> set (newViewable st1) then newViewable st1 else newViewable st1 @ [i]);
                tracked = (case ps_tracked st1 i of
                             None \<Rightarrow> \<lparr>t_flatIndex = i, t_isViewable = False,
                                       lastVisibleTime = now, becameVisibleAt = Some now\<rparr>
                           | Some tr \<Rightarrow> tr);
                promote = (\<not> t_isViewable tracked \<and>
                           (case becameVisibleAt tracked of
                              None \<Rightarrow> False
                            | Some since \<Rightarrow> now - since \<ge> minimumViewTime (config t)));
                tracked1 = (if promote then tracked\<lparr>t_isViewable := True\<rparr> else tracked);
                changed1 = (if promote then changed st1 @ [createViewToken t i True] else changed st1);
                tracked2 = tracked1\<lparr>lastVisibleTime := now\<rparr>
            in st1\<lparr>newViewable := nv, ps_tracked := (ps_tracked st1)(i \<mapsto> tracked2),
                   changed := changed1\<rparr>)
         else st1)"

text \<open>One iteration of the second loop: an index that was viewable after the last pass.\<close>

definition leave_index :: "'a ViewabilityTracker \<Rightarrow> int \<Rightarrow> 'a pass_state \<Rightarrow> 'a pass_state" where
  "leave_index t fi st =
     (if fi \<notin> set (newViewable st) then
        (case ps_tracked st fi of
           None \<Rightarrow> st
         | Some tracked \<Rightarrow>
             if t_isViewable tracked then
               st\<lparr>ps_tracked := (ps_tracked st)(fi \<mapsto>
                      tracked\<lparr>t_isViewable := False, becameVisibleAt := None\<rparr>),
                  changed := changed st @ [createViewToken t fi False]\<rparr>
             else st)
      else st)"

definition computeViewability ::
  "'a ViewabilityTracker \<Rightarrow> int \<Rightarrow>
   'a ViewabilityTracker \<times> ('a ViewToken list \<times> 'a ViewToken list) option" where
  "computeViewability t now =
     (if waitForInteraction (config t) \<and> \<not> hasInteracted t then (t, None)
      else
        (let vr = getVisibleRange (vt_layoutPositioner t) (scrollOffset t) (viewportSize t) 0;
             startIndex = fst (fst vr); endIndex = snd (fst vr);
             st0 = \<lparr>newViewable = [], ps_tracked = trackedItems t, changed = [],
                    ps_positioner = snd vr\<rparr>;
             st1 = fold (visit_index t now) [startIndex..endIndex] st0;
             st2 = fold (leave_index t) (currentlyViewable t) st1;
             t' = t\<lparr>vt_layoutPositioner := ps_positioner st2, trackedItems := ps_tracked st2,
                    currentlyViewable := newViewable st2\<rparr>
         in if changed st2 \<noteq> [] then
              (t', Some (map (\<lambda>i. createViewToken t' i True)
                          (filter (\<lambda>i. case trackedItems t' i of
                                          None \<Rightarrow> False
                                        | Some tr \<Rightarrow> t_isViewable tr)
                             (currentlyViewable t')),
                         changed st2))
            else (t', None)))"

definition timer_fires ::
  "'a ViewabilityTracker \<Rightarrow> int \<Rightarrow>
   'a ViewabilityTracker \<times> ('a ViewToken list \<times> 'a ViewToken list) option" where
  "timer_fires t now =
     (if pendingUpdate t then computeViewability (t\<lparr>pendingUpdate := False\<rparr>) now else (t, None))"

definition dispose :: "'a ViewabilityTracker \<Rightarrow> 'a ViewabilityTracker" where
  "dispose t = t\<lparr>pendingUpdate := False, trackedItems := Map.empty, currentlyViewable := []\<rparr>"

definition getVisibleIndices :: "'a ViewabilityTracker \<Rightarrow> int list" where
  "getVisibleIndices t = currentlyViewable t"

definition isIndexVisible :: "'a ViewabilityTracker \<Rightarrow> int \<Rightarrow> bool" where
  "isIndexVisible t index = (index \<in> set (currentlyViewable t))"

section \<open>Specification-level notions and example inputs\<close>

text \<open>
  The number of entries a group contributes to the flat sequence, the number of entries
  emitted before a group (the flat index of its header), and the boundary of a group
  whose header stands at a given flat index.
\<close>

definition group_size :: "'a Section list \<Rightarrow> string set \<Rightarrow> bool \<Rightarrow> nat \<Rightarrow> int" where
  "group_size sections collapsed footers g =
     (if key (sections ! g) \<in> collapsed then 1
      else 1 + int (length (data (sections ! g))) + (if footers then 1 else 0))"

definition header_position :: "'a Section list \<Rightarrow> string set \<Rightarrow> bool \<Rightarrow> nat \<Rightarrow> int" where
  "header_position sections collapsed footers g = (\<Sum>i<g. group_size sections collapsed footers i)"

definition boundary_at :: "'a Section list \<Rightarrow> string set \<Rightarrow> bool \<Rightarrow> nat \<Rightarrow> int \<Rightarrow> SectionBoundary" where
  "boundary_at S c f g fi =
     (let n = int (length (data (S ! g))); col = (key (S ! g) \<in> c) in
      \<lparr>b_sectionIndex = int g, b_sectionKey = key (S ! g), headerFlatIndex = fi,
       firstItemFlatIndex = (if col then -1 else fi + 1),
       lastItemFlatIndex = (if col then -1 else fi + n),
       footerFlatIndex = (if \<not> col \<and> f then Some (fi + 1 + n) else None),
       itemCount = (if col then 0 else n)\<rparr>)"

text \<open>Three groups of 2, 0 and 3 records, and a manager without footers.\<close>

definition example_sections :: "nat Section list" where
  "example_sections =
     [\<lparr>key = ''a'', title = None, data = [1, 2]\<rparr>,
      \<lparr>key = ''b'', title = None, data = []\<rparr>,
      \<lparr>key = ''c'', title = None, data = [3, 4, 5]\<rparr>]"

definition example_manager :: "nat SectionLayoutManager" where
  "example_manager = createSectionLayoutManager createLayoutCache
     \<lparr>smo_horizontal = None, smo_estimatedItemSize = None, smo_estimatedHeaderSize = None,
      smo_estimatedFooterSize = None, smo_hasSectionFooters = None\<rparr>"

text \<open>
  The entries a group contributes to the flat sequence, and a list of two groups with the
  same key.
\<close>

definition group_entries :: "'a Section list \<Rightarrow> string set \<Rightarrow> bool \<Rightarrow> nat \<Rightarrow> 'a FlattenedItem list" where
  "group_entries S c f g =
     (let sec = S ! g in
      \<lparr>ftype = SectionHeader, fkey = ''header-'' @ key sec, sectionKey = key sec,
        sectionIndex = int g, itemIndex = -1, item = None, fsection = sec\<rparr> #
      (if key sec \<in> c then []
       else map (\<lambda>r. \<lparr>ftype = Item, fkey = ''item-'' @ key sec @ ''-'' @ decimal r,
                       sectionKey = key sec, sectionIndex = int g, itemIndex = int r,
                       item = Some (data sec ! r), fsection = sec\<rparr>) [0..<length (data sec)]
            @ (if f then [\<lparr>ftype = SectionFooter, fkey = ''footer-'' @ key sec,
                            sectionKey = key sec, sectionIndex = int g, itemIndex = -1,
                            item = None, fsection = sec\<rparr>] else [])))"

definition repeated_key_sections :: "nat Section list" where
  "repeated_key_sections =
     [\<lparr>key = ''a'', title = None, data = [1, 2]\<rparr>,
      \<lparr>key = ''a'', title = None, data = [3]\<rparr>]"

definition offset_of :: "'a LinearLayoutPositioner \<Rightarrow> nat \<Rightarrow> real" where
  "offset_of p i = (\<Sum>j<i. getItemSize p (int j))"

definition crossAxis :: "'a LinearLayoutPositioner \<Rightarrow> real" where
  "crossAxis p = (if horizontal p then containerHeight p else containerWidth p)"

definition layout_of :: "'a LinearLayoutPositioner \<Rightarrow> nat \<Rightarrow> LayoutRect" where
  "layout_of p i =
     (if horizontal p
      then \<lparr>rx = offset_of p i, ry = 0, width = getItemSize p (int i), height = crossAxis p\<rparr>
      else \<lparr>rx = 0, ry = offset_of p i, width = crossAxis p, height = getItemSize p (int i)\<rparr>)"

definition layouts_of :: "'a LinearLayoutPositioner \<Rightarrow> nat \<Rightarrow> (int \<rightharpoonup> LayoutRect)" where
  "layouts_of p k = (\<lambda>i. if 0 \<le> i \<and> i < int k then Some (layout_of p (nat i)) else None)"

definition main_start :: "'a LinearLayoutPositioner \<Rightarrow> LayoutRect \<Rightarrow> real" where
  "main_start p r = (if horizontal p then rx r else ry r)"

definition main_size :: "'a LinearLayoutPositioner \<Rightarrow> LayoutRect \<Rightarrow> real" where
  "main_size p r = (if horizontal p then width r else height r)"

definition layouts_consistent :: "'a LinearLayoutPositioner \<Rightarrow> bool" where
  "layouts_consistent p =
     (layoutsValid p \<longrightarrow>
        computedLayouts p = layouts_of p (length (flattenedData p)) \<and>
        totalContentSize p =
          (if horizontal p then (offset_of p (length (flattenedData p)), crossAxis p)
           else (crossAxis p, offset_of p (length (flattenedData p)))))"

inductive reachable :: "'a LinearLayoutPositioner \<Rightarrow> bool" where
  created: "reachable (createLayoutPositioner lc git opts)"
| after_setData: "reachable p \<Longrightarrow> reachable (setData (p\<lparr>getItemType := git\<rparr>) fd)"
| after_setContainerSize: "reachable p \<Longrightarrow> reachable (setContainerSize p w h)"
| after_updateItemLayout: "reachable p \<Longrightarrow> reachable (updateItemLayout p index layout)"
| after_invalidateFrom: "reachable p \<Longrightarrow> reachable (invalidateFrom p index)"
| after_invalidateAll: "reachable p \<Longrightarrow> reachable (invalidateAll p)"
| after_getLayoutForIndex: "reachable p \<Longrightarrow> reachable (snd (getLayoutForIndex p index))"
| after_getContentSize: "reachable p \<Longrightarrow> reachable (snd (getContentSize p))"
| after_getVisibleRange: "reachable p \<Longrightarrow> reachable (snd (getVisibleRange p so vs ov))"
| after_getIndexForOffset: "reachable p \<Longrightarrow> reachable (snd (getIndexForOffset p offset))"

definition resolved_size :: "'a LinearLayoutPositioner \<Rightarrow> 'a FlattenedItem \<Rightarrow> string \<Rightarrow> real" where
  "resolved_size p it ty =
     (case cache (layoutCache p) (fkey it) of
        Some measured \<Rightarrow> main_size p measured
      | None \<Rightarrow>
          (case getAverageSize (layoutCache p) ty of
             Some average \<Rightarrow> average
           | None \<Rightarrow>
               (case ftype it of
                  SectionHeader \<Rightarrow> estimatedHeaderSize p
                | SectionFooter \<Rightarrow> estimatedFooterSize p
                | Item \<Rightarrow> estimatedItemSize p)))"

definition main_extent :: "'a LinearLayoutPositioner \<Rightarrow> real \<times> real \<Rightarrow> real" where
  "main_extent p sz = (if horizontal p then fst sz else snd sz)"

definition uniform_item :: "nat \<Rightarrow> nat FlattenedItem" where
  "uniform_item i =
     \<lparr>ftype = Item, fkey = ''item-s-'' @ decimal i, sectionKey = ''s'', sectionIndex = 0,
      itemIndex = int i, item = Some i,
      fsection = \<lparr>key = ''s'', title = None, data = [0..<6]\<rparr>\<rparr>"

definition uniform_items :: "nat FlattenedItem list" where
  "uniform_items = map uniform_item [0..<6]"

definition uniform_positioner :: "nat LinearLayoutPositioner" where
  "uniform_positioner =
     setData ((createLayoutPositioner createLayoutCache (\<lambda>i. ''default'') no_options)
                \<lparr>getItemType := (\<lambda>i. ''default'')\<rparr>) uniform_items"



definition item_start :: "'a LinearLayoutPositioner \<Rightarrow> nat \<Rightarrow> real" where
  "item_start p i = main_start p (fst (getLayoutForIndex p (int i)))"

definition item_end :: "'a LinearLayoutPositioner \<Rightarrow> nat \<Rightarrow> real" where
  "item_end p i = main_start p (fst (getLayoutForIndex p (int i)))
                  + main_size p (fst (getLayoutForIndex p (int i)))"

datatype cache_call =
    CacheSet string LayoutRect
  | CacheDelete string
  | CacheClear
  | CacheInvalidateFrom int "(string \<times> int) list"
  | RecordMeasurement string real

fun cache_step :: "LayoutCache \<Rightarrow> cache_call \<Rightarrow> LayoutCache" where
  "cache_step c (CacheSet k layout) = cache_set c k layout"
| "cache_step c (CacheDelete k) = cache_delete c k"
| "cache_step c CacheClear = cache_clear c"
| "cache_step c (CacheInvalidateFrom fi m) = cache_invalidateFrom c fi m"
| "cache_step c (RecordMeasurement ty sz) = recordMeasurement c ty sz"

definition cache_run :: "cache_call list \<Rightarrow> LayoutCache" where
  "cache_run calls = foldl cache_step createLayoutCache calls"

fun recorded_step :: "string \<Rightarrow> real list \<Rightarrow> cache_call \<Rightarrow> real list" where
  "recorded_step ty acc CacheClear = []"
| "recorded_step ty acc (RecordMeasurement ty' sz) = (if ty' = ty then acc @ [sz] else acc)"
| "recorded_step ty acc call = acc"

definition recorded_since_clear :: "string \<Rightarrow> cache_call list \<Rightarrow> real list" where
  "recorded_since_clear ty calls = foldl (recorded_step ty) [] calls"

text \<open>
  The maximum configured for each type after a list of calls: the size of the last
  \<open>setMaxPoolSize\<close> for the type, and the default of the recycler when there is none.
  A maximum is a count when it is a whole number that is not negative.
\<close>

fun configured :: "(string \<Rightarrow> real) \<Rightarrow> recycler_call list \<Rightarrow> string \<Rightarrow> real" where
  "configured cm [] = cm"
| "configured cm (SetMaxPoolSize ty n # calls) = configured (cm(ty := n)) calls"
| "configured cm (AcquireCell ty fi # calls) = configured cm calls"
| "configured cm (GetCell ty fi # calls) = configured cm calls"
| "configured cm (ReleaseCell c # calls) = configured cm calls"

definition configured_max :: "real \<Rightarrow> recycler_call list \<Rightarrow> string \<Rightarrow> real" where
  "configured_max dflt calls ty = configured (\<lambda>t. dflt) calls ty"

definition is_count :: "real \<Rightarrow> bool" where
  "is_count n = (0 \<le> n \<and> n = of_int \<lfloor>n\<rfloor>)"

fun count_sizes :: "recycler_call list \<Rightarrow> bool" where
  "count_sizes [] = True"
| "count_sizes (SetMaxPoolSize ty n # calls) = (is_count n \<and> count_sizes calls)"
| "count_sizes (AcquireCell ty fi # calls) = count_sizes calls"
| "count_sizes (GetCell ty fi # calls) = count_sizes calls"
| "count_sizes (ReleaseCell c # calls) = count_sizes calls"

text \<open>The length of the free list of a type after a run, and the cells outstanding.\<close>

definition free_list_length ::
  "(CellRecycler \<times> RecycledCell list) option \<Rightarrow> string \<Rightarrow> nat option" where
  "free_list_length res ty =
     (case res of
        None \<Rightarrow> None
      | Some s \<Rightarrow> (case pools (fst s) ty of None \<Rightarrow> None | Some pool \<Rightarrow> Some (length (cells pool))))"

definition outstanding :: "(CellRecycler \<times> RecycledCell list) option \<Rightarrow> RecycledCell list option" where
  "outstanding res = (case res of None \<Rightarrow> None | Some s \<Rightarrow> Some (snd s))"

definition pool_keys :: "CellRecycler \<Rightarrow> string \<Rightarrow> string set" where
  "pool_keys r ty = (case pools r ty of None \<Rightarrow> {} | Some pool \<Rightarrow> ckey ` set (cells pool))"

definition issued :: "nat \<Rightarrow> string \<Rightarrow> bool" where
  "issued n k = (\<exists>ty m. m \<le> n \<and> k = ty @ ''-'' @ decimal m)"

definition recycler_inv :: "CellRecycler \<times> RecycledCell list \<Rightarrow> bool" where
  "recycler_inv s =
     ((\<forall>ty pool. pools (fst s) ty = Some pool \<longrightarrow> distinct (map ckey (cells pool)))
      \<and> (\<forall>ty ty'. ty \<noteq> ty' \<longrightarrow> pool_keys (fst s) ty \<inter> pool_keys (fst s) ty' = {})
      \<and> distinct (map ckey (snd s))
      \<and> (\<forall>ty. pool_keys (fst s) ty \<inter> ckey ` set (snd s) = {})
      \<and> (\<forall>ty. \<forall>k \<in> pool_keys (fst s) ty. issued (cellCounter (fst s)) k)
      \<and> (\<forall>c \<in> set (snd s). issued (cellCounter (fst s)) (ckey c)))"

text \<open>
  Every pool has the maximum configured for its type and is within it; a type without a
  pool has the default of the recycler as its maximum.
\<close>

definition pools_bounded :: "(string \<Rightarrow> real) \<Rightarrow> CellRecycler \<Rightarrow> bool" where
  "pools_bounded cm r =
     (\<forall>ty. case pools r ty of
             None \<Rightarrow> cm ty = defaultMaxPoolSize r
           | Some pool \<Rightarrow> maxSize pool = cm ty \<and> real (length (cells pool)) \<le> cm ty)"

definition example_calls :: "recycler_call list" where
  "example_calls =
     [SetMaxPoolSize ''a'' 1, GetCell ''a'' 0, GetCell ''a'' 1,
      ReleaseCell \<lparr>ckey = ''a-1'', itemType = ''a'', cell_flatIndex = 0\<rparr>,
      ReleaseCell \<lparr>ckey = ''a-2'', itemType = ''a'', cell_flatIndex = 1\<rparr>,
      GetCell ''a'' 5, GetCell ''b'' 6]"

text \<open>
  A maximum of one and a half, with two cells created and released; and a negative
  maximum set on a pool that exists.
\<close>

definition fractional_calls :: "recycler_call list" where
  "fractional_calls =
     [SetMaxPoolSize ''a'' (3 / 2), GetCell ''a'' 0, GetCell ''a'' 1,
      ReleaseCell \<lparr>ckey = ''a-1'', itemType = ''a'', cell_flatIndex = 0\<rparr>,
      ReleaseCell \<lparr>ckey = ''a-2'', itemType = ''a'', cell_flatIndex = 1\<rparr>]"

definition negative_calls :: "recycler_call list" where
  "negative_calls =
     [GetCell ''a'' 0,
      ReleaseCell \<lparr>ckey = ''a-1'', itemType = ''a'', cell_flatIndex = 0\<rparr>,
      SetMaxPoolSize ''a'' (- 1)]"

definition uniform_ready :: "nat LinearLayoutPositioner" where
  "uniform_ready = snd (getContentSize uniform_positioner)"

definition example_tracker :: "nat ViewabilityTracker" where
  "example_tracker =
     setViewportSize (createViewabilityTracker uniform_ready uniform_items
                        DEFAULT_VIEWABILITY_CONFIG False) 100"

text \<open>
  A run of the engine: each step sets the scroll offset and then lets the pending timer
  fire at the given time. The run returns the final state and the notification of each
  pass.
\<close>

fun run_passes ::
  "'a ViewabilityTracker \<Rightarrow> (real \<times> int) list \<Rightarrow>
   'a ViewabilityTracker \<times> ('a ViewToken list \<times> 'a ViewToken list) option list" where
  "run_passes t [] = (t, [])"
| "run_passes t ((offset, now) # ps) =
     (let r = timer_fires (updateScrollOffset t offset) now;
          rest = run_passes (fst r) ps
      in (fst rest, snd r # snd rest))"

definition tracked_or_new :: "int \<Rightarrow> int \<Rightarrow> TrackedItem option \<Rightarrow> TrackedItem" where
  "tracked_or_new i now old =
     (case old of
        None \<Rightarrow> \<lparr>t_flatIndex = i, t_isViewable = False, lastVisibleTime = now,
                  becameVisibleAt = Some now\<rparr>
      | Some tr \<Rightarrow> tr)"

definition promotes :: "ViewabilityConfig \<Rightarrow> int \<Rightarrow> TrackedItem \<Rightarrow> bool" where
  "promotes cfg now tr =
     (\<not> t_isViewable tr \<and>
      (case becameVisibleAt tr of
         None \<Rightarrow> False
       | Some since \<Rightarrow> now - since \<ge> minimumViewTime cfg))"

definition visited :: "ViewabilityConfig \<Rightarrow> int \<Rightarrow> int \<Rightarrow> TrackedItem option \<Rightarrow> TrackedItem" where
  "visited cfg now i old =
     (if promotes cfg now (tracked_or_new i now old)
      then (tracked_or_new i now old)\<lparr>t_isViewable := True\<rparr>
      else tracked_or_new i now old)\<lparr>lastVisibleTime := now\<rparr>"

definition confirmed :: "TrackedItem option \<Rightarrow> bool" where
  "confirmed old = (case old of None \<Rightarrow> False | Some tr \<Rightarrow> t_isViewable tr)"

definition left_view :: "TrackedItem option \<Rightarrow> TrackedItem option" where
  "left_view old =
     (case old of
        None \<Rightarrow> None
      | Some tr \<Rightarrow> if t_isViewable tr
                   then Some (tr\<lparr>t_isViewable := False, becameVisibleAt := None\<rparr>)
                   else Some tr)"

definition qualifies :: "'a ViewabilityTracker \<Rightarrow> int \<Rightarrow> bool" where
  "qualifies t i =
     (let vr = getVisibleRange (vt_layoutPositioner t) (scrollOffset t) (viewportSize t) 0
      in fst (fst vr) \<le> i \<and> i \<le> snd (fst vr)
         \<and> isItemViewable t i (fst (getLayoutForIndex (snd vr) i)))"

definition events :: "('a ViewToken list \<times> 'a ViewToken list) option \<Rightarrow> (int \<times> bool) list" where
  "events n = (case n of None \<Rightarrow> [] | Some info \<Rightarrow> map (\<lambda>tok. (tok_index tok, isViewable tok)) (snd info))"

definition std :: "nat ViewabilityTracker \<Rightarrow> bool" where
  "std t = (config t = DEFAULT_VIEWABILITY_CONFIG \<and> vt_layoutPositioner t = uniform_ready
     \<and> vt_flattenedData t = uniform_items \<and> vt_horizontal t = False \<and> viewportSize t = 100
     \<and> distinct (currentlyViewable t))"

section \<open>Properties\<close>

subsection \<open>Flattening and the coordinate lookup\<close>

lemma inner_fold_fst:
  "fst (fold (\<lambda>i acc. (fst acc @ [e i], snd acc + (1::int))) xs (a, n)) = fold (\<lambda>i res. res @ [e i]) xs a"
  by (induction xs arbitrary: a n) simp_all

lemma inner_fold_snd:
  "snd (fold (\<lambda>i acc. (fst acc @ [e i], snd acc + (1::int))) xs (a, n)) = n + int (length xs)"
  by (induction xs arbitrary: a n) simp_all

lemma updateData_step_fst:
  "fst (updateData_step S c f i st) = flattenSections_step S c f i (fst st)"
  by (simp add: updateData_step_def flattenSections_step_def Let_def inner_fold_fst)

lemma updateData_fold_fst:
  "fst (fold (updateData_step S c f) xs st) = fold (flattenSections_step S c f) xs (fst st)"
  by (induction xs arbitrary: st) (simp_all add: updateData_step_fst)

text \<open>
  Claim C10. For every list of sections, every set of collapsed sections and every footer
  flag, the flattened sequence \<open>updateData\<close> of the manager returns is the sequence
  the standalone \<open>flattenSections\<close> returns for the same collapsed set and flag: the
  same list of entries, so the same length and, at every position, the same type, key,
  sectionKey, sectionIndex, itemIndex, item and section.
\<close>

theorem updateData_eq_flattenSections:
  "fst (updateData m sections collapsed) =
     flattenSections sections \<lparr>fo_collapsedSections = Some collapsed,
        fo_includeSectionFooters = Some (hasSectionFooters m)\<rparr>"
  by (simp add: updateData_def flattenSections_def Let_def updateData_fold_fst)

lemma append_fold_length:
  "length (fold (\<lambda>i res. res @ [e i]) xs a) = length a + length xs"
  by (induction xs arbitrary: a) simp_all

lemma flattenSections_step_length:
  "int (length (flattenSections_step S c f g res)) = int (length res) + group_size S c f g"
  by (simp add: flattenSections_step_def group_size_def Let_def append_fold_length)

lemma flatten_length:
  "int (length (fold (flattenSections_step S c f) [0..<k] [])) = header_position S c f k"
  by (induction k) (simp_all add: header_position_def flattenSections_step_length)

lemma flattenSections_length:
  "int (length (flattenSections S \<lparr>fo_collapsedSections = Some c, fo_includeSectionFooters = Some f\<rparr>))
     = header_position S c f (length S)"
  by (simp add: flattenSections_def flatten_length)

theorem updateData_eq_flattenSections_witness:
  "fst (updateData example_manager example_sections {''b''}) =
     flattenSections example_sections
       \<lparr>fo_collapsedSections = Some {''b''}, fo_includeSectionFooters = Some False\<rparr>
   \<and> length (fst (updateData example_manager example_sections {''b''})) = 8"
proof -
  have f: "hasSectionFooters example_manager = False"
    by (simp add: example_manager_def createSectionLayoutManager_def)
  have e: "fst (updateData example_manager example_sections {''b''}) =
     flattenSections example_sections
       \<lparr>fo_collapsedSections = Some {''b''}, fo_includeSectionFooters = Some False\<rparr>"
    using updateData_eq_flattenSections[of example_manager example_sections "{''b''}"] by (simp add: f)
  have "int (length (flattenSections example_sections
       \<lparr>fo_collapsedSections = Some {''b''}, fo_includeSectionFooters = Some False\<rparr>)) = 8"
    by (simp add: flattenSections_length header_position_def group_size_def example_sections_def
        lessThan_Suc numeral_3_eq_3)
  with e show ?thesis by simp
qed

lemma updateData_step_snd:
  "snd (updateData_step S c f g st) =
     ((fst (snd st))(key (S ! g) \<mapsto> boundary_at S c f g (snd (snd st))),
      snd (snd st) + group_size S c f g)"
  by (simp add: updateData_step_def Let_def inner_fold_snd boundary_at_def group_size_def)

lemma updateData_fold_index:
  "snd (snd (fold (updateData_step S c f) [0..<k] ([], Map.empty, 0))) = header_position S c f k"
  by (induction k) (simp_all add: header_position_def updateData_step_snd)

lemma updateData_fold_boundaries:
  "g < k \<Longrightarrow> \<exists>j. g \<le> j \<and> j < k \<and> key (S ! j) = key (S ! g) \<and>
     fst (snd (fold (updateData_step S c f) [0..<k] ([], Map.empty, 0))) (key (S ! g))
       = Some (boundary_at S c f j (header_position S c f j))"
proof (induction k)
  case 0
  then show ?case by simp
next
  case (Suc k)
  let ?st = "fold (updateData_step S c f) [0..<k] ([], Map.empty, 0)"
  have sb: "fst (snd (fold (updateData_step S c f) [0..<Suc k] ([], Map.empty, 0)))
      = (fst (snd ?st))(key (S ! k) \<mapsto> boundary_at S c f k (header_position S c f k))"
    by (simp add: updateData_step_snd updateData_fold_index)
  show ?case
  proof (cases "key (S ! k) = key (S ! g)")
    case True
    with Suc.prems show ?thesis
      unfolding sb by (intro exI[of _ k]) simp
  next
    case False
    then have "g \<noteq> k" by auto
    with Suc.prems have "g < k" by simp
    from Suc.IH[OF this] obtain j where "g \<le> j" "j < k" "key (S ! j) = key (S ! g)"
      "fst (snd ?st) (key (S ! g)) = Some (boundary_at S c f j (header_position S c f j))"
      by blast
    with False show ?thesis
      unfolding sb by (intro exI[of _ j]) auto
  qed
qed

lemma updateData_fields:
  "sm_sections (snd (updateData m S c)) = S"
  "collapsedSections (snd (updateData m S c)) = c"
  "sectionBoundaries (snd (updateData m S c)) =
     fst (snd (fold (updateData_step S c (hasSectionFooters m)) [0..<length S] ([], Map.empty, 0)))"
  by (simp_all add: updateData_def Let_def)

lemma distinct_keys_same_index:
  assumes "distinct (map key S)" "g < length S" "j < length S" "key (S ! j) = key (S ! g)"
  shows "j = g"
proof -
  have "map key S ! j = map key S ! g" using assms by simp
  moreover have "j < length (map key S)" "g < length (map key S)" using assms by simp_all
  ultimately show ?thesis using nth_eq_iff_index_eq[OF assms(1)] by blast
qed

lemma append_fold_map: "fold (\<lambda>i res. res @ [e i]) xs a = a @ map e xs"
  by (induction xs arbitrary: a) simp_all

lemma flattenSections_step_append:
  "flattenSections_step S c f g res = res @ group_entries S c f g"
  by (simp add: flattenSections_step_def group_entries_def Let_def append_fold_map)

lemma group_entries_length: "int (length (group_entries S c f g)) = group_size S c f g"
  by (simp add: group_entries_def group_size_def Let_def)

lemma group_size_pos: "0 < group_size S c f g"
  by (simp add: group_size_def)

lemma header_position_nonneg: "0 \<le> header_position S c f g"
  unfolding header_position_def by (intro sum_nonneg) (simp add: less_imp_le[OF group_size_pos])

lemma header_position_Suc:
  "header_position S c f (Suc g) = header_position S c f g + group_size S c f g"
  by (simp add: header_position_def)

lemma header_position_mono: "g \<le> k \<Longrightarrow> header_position S c f g \<le> header_position S c f k"
proof (induction k)
  case 0
  then show ?case by simp
next
  case (Suc k)
  show ?case
  proof (cases "g = Suc k")
    case True
    then show ?thesis by simp
  next
    case False
    with Suc.prems have "g \<le> k" by simp
    from Suc.IH[OF this] group_size_pos[of S c f k] show ?thesis
      by (simp add: header_position_Suc)
  qed
qed

lemma flatten_nth:
  assumes "g < k" "j < length (group_entries S c f g)"
  shows "fold (flattenSections_step S c f) [0..<k] [] ! (nat (header_position S c f g) + j)
           = group_entries S c f g ! j"
  using assms(1)
proof (induction k)
  case 0
  then show ?case by simp
next
  case (Suc k)
  let ?xs = "fold (flattenSections_step S c f) [0..<k] []"
  have len: "int (length ?xs) = header_position S c f k" by (rule flatten_length)
  have st: "fold (flattenSections_step S c f) [0..<Suc k] [] = ?xs @ group_entries S c f k"
    by (simp add: flattenSections_step_append)
  from assms(2) have jl: "int j < group_size S c f g"
    using group_entries_length[of S c f g] by linarith
  show ?case
  proof (cases "g = k")
    case True
    have "nat (header_position S c f g) = length ?xs"
      using len True by simp
    then show ?thesis unfolding st using True by (simp add: nth_append)
  next
    case False
    with Suc.prems have gk: "g < k" by simp
    then have "header_position S c f (Suc g) \<le> header_position S c f k"
      by (intro header_position_mono) simp
    with jl have "header_position S c f g + int j < header_position S c f k"
      by (simp add: header_position_Suc)
    with len header_position_nonneg[of S c f g]
    have "nat (header_position S c f g) + j < length ?xs" by linarith
    then show ?thesis unfolding st using Suc.IH[OF gk] by (simp add: nth_append)
  qed
qed

lemma updateData_data:
  "sm_flattenedData (snd (updateData m S c)) =
     fold (flattenSections_step S c (hasSectionFooters m)) [0..<length S] []"
  by (simp add: updateData_def Let_def updateData_fold_fst)

lemma flat_entry:
  assumes "g < length S" "j < length (group_entries S c (hasSectionFooters m) g)"
  shows "item_at (sm_flattenedData (snd (updateData m S c)))
            (header_position S c (hasSectionFooters m) g + int j)
           = Some (group_entries S c (hasSectionFooters m) g ! j)"
proof -
  let ?f = "hasSectionFooters m"
  let ?xs = "fold (flattenSections_step S c ?f) [0..<length S] []"
  have len: "int (length ?xs) = header_position S c ?f (length S)" by (rule flatten_length)
  from assms(2) have jl: "int j < group_size S c ?f g"
    using group_entries_length[of S c ?f g] by linarith
  have "header_position S c ?f (Suc g) \<le> header_position S c ?f (length S)"
    using assms(1) by (intro header_position_mono) simp
  with jl have lt: "header_position S c ?f g + int j < int (length ?xs)"
    by (simp add: header_position_Suc len)
  have n: "nat (header_position S c ?f g + int j) = nat (header_position S c ?f g) + j"
    using header_position_nonneg[of S c ?f g] by simp
  show ?thesis
    using lt header_position_nonneg[of S c ?f g] flatten_nth[OF assms]
    by (simp add: updateData_data item_at_def n)
qed

lemma header_entry:
  assumes "g < length S"
  shows "getSectionItemIndex (snd (updateData m S c)) (header_position S c (hasSectionFooters m) g)
           = (int g, -1, True, False)"
proof -
  have "0 < length (group_entries S c (hasSectionFooters m) g)"
    by (simp add: group_entries_def Let_def)
  from flat_entry[OF assms this] show ?thesis
    by (simp add: getSectionItemIndex_def group_entries_def Let_def)
qed

lemma record_entry:
  assumes "g < length S" "key (S ! g) \<notin> c" "0 \<le> r" "r < int (length (data (S ! g)))"
  shows "getSectionItemIndex (snd (updateData m S c))
            (header_position S c (hasSectionFooters m) g + 1 + r)
           = (int g, r, False, False)"
proof -
  have l: "Suc (nat r) < length (group_entries S c (hasSectionFooters m) g)"
    using assms(2-4) by (simp add: group_entries_def Let_def)
  have e: "group_entries S c (hasSectionFooters m) g ! Suc (nat r) =
      \<lparr>ftype = Item, fkey = ''item-'' @ key (S ! g) @ ''-'' @ decimal (nat r),
        sectionKey = key (S ! g), sectionIndex = int g, itemIndex = r,
        item = Some (data (S ! g) ! nat r), fsection = S ! g\<rparr>"
    using assms(2-4) by (simp add: group_entries_def Let_def nth_append)
  have i: "header_position S c (hasSectionFooters m) g + int (Suc (nat r))
      = header_position S c (hasSectionFooters m) g + 1 + r"
    using assms(3) by simp
  from flat_entry[OF assms(1) l] show ?thesis
    unfolding i by (simp add: getSectionItemIndex_def e)
qed

text \<open>
  Claim C1, as amended. For a list of sections with pairwise different keys, after a
  rebuild (\<open>updateData\<close>) and for every group \<open>g\<close> of the list: for the record index
  \<open>-1\<close> \<open>getFlatIndex\<close> returns the number of entries emitted before the group, and the
  flattened data hold the header of group \<open>g\<close> there; for every record index \<open>r \<ge> 0\<close> of
  a collapsed group it returns \<open>-1\<close>; for a valid record index \<open>r\<close> of a group that is
  not collapsed it returns the index after the header plus \<open>r\<close>, and the flattened data
  hold record \<open>r\<close> of group \<open>g\<close> there. The boundary stored under the group's key is the
  group's own: its header index is the one returned for \<open>-1\<close>, and the index returned for
  a valid record index \<open>r\<close> is its first record index plus \<open>r\<close>.
\<close>

theorem getFlatIndex_after_updateData:
  assumes "distinct (map key sections)" and "g < length sections"
  shows "getFlatIndex (snd (updateData m sections collapsed)) (int g) (-1)
           = header_position sections collapsed (hasSectionFooters m) g
    \<and> getSectionItemIndex (snd (updateData m sections collapsed))
          (getFlatIndex (snd (updateData m sections collapsed)) (int g) (-1))
           = (int g, -1, True, False)
    \<and> (\<forall>r. key (sections ! g) \<in> collapsed \<and> 0 \<le> r \<longrightarrow>
          getFlatIndex (snd (updateData m sections collapsed)) (int g) r = -1)
    \<and> (\<forall>r. key (sections ! g) \<notin> collapsed \<and> 0 \<le> r \<and> r < int (length (data (sections ! g))) \<longrightarrow>
          getFlatIndex (snd (updateData m sections collapsed)) (int g) r
            = getFlatIndex (snd (updateData m sections collapsed)) (int g) (-1) + 1 + r
          \<and> getSectionItemIndex (snd (updateData m sections collapsed))
              (getFlatIndex (snd (updateData m sections collapsed)) (int g) r)
            = (int g, r, False, False))
    \<and> (\<exists>b. sectionBoundaries (snd (updateData m sections collapsed)) (key (sections ! g)) = Some b
          \<and> b_sectionIndex b = int g
          \<and> headerFlatIndex b = getFlatIndex (snd (updateData m sections collapsed)) (int g) (-1)
          \<and> (\<forall>r. key (sections ! g) \<notin> collapsed \<and> 0 \<le> r
                  \<and> r < int (length (data (sections ! g))) \<longrightarrow>
                getFlatIndex (snd (updateData m sections collapsed)) (int g) r
                  = firstItemFlatIndex b + r))"
proof -
  let ?m = "snd (updateData m sections collapsed)"
  let ?f = "hasSectionFooters m"
  let ?h = "header_position sections collapsed ?f g"
  from updateData_fold_boundaries[OF assms(2), of sections collapsed ?f]
  obtain j where j: "g \<le> j" "j < length sections" "key (sections ! j) = key (sections ! g)"
    and sb0: "sectionBoundaries ?m (key (sections ! g))
       = Some (boundary_at sections collapsed ?f j (header_position sections collapsed ?f j))"
    unfolding updateData_fields by blast
  from distinct_keys_same_index[OF assms(1,2) j(2,3)] have "j = g" .
  with sb0 have sb: "sectionBoundaries ?m (key (sections ! g))
       = Some (boundary_at sections collapsed ?f g ?h)" by simp
  have at: "item_at sections (int g) = Some (sections ! g)"
    using assms(2) by (simp add: item_at_def)
  have h: "getFlatIndex ?m (int g) (-1) = ?h"
    by (simp add: getFlatIndex_def updateData_fields(1,2) at sb boundary_at_def Let_def)
  have hs: "getSectionItemIndex ?m (getFlatIndex ?m (int g) (-1)) = (int g, -1, True, False)"
    unfolding h by (rule header_entry[OF assms(2)])
  have c: "\<forall>r. key (sections ! g) \<in> collapsed \<and> 0 \<le> r \<longrightarrow> getFlatIndex ?m (int g) r = -1"
    by (simp add: getFlatIndex_def updateData_fields(1,2) at sb)
  have i: "getFlatIndex ?m (int g) r = getFlatIndex ?m (int g) (-1) + 1 + r
        \<and> getSectionItemIndex ?m (getFlatIndex ?m (int g) r) = (int g, r, False, False)"
    if r: "key (sections ! g) \<notin> collapsed" "0 \<le> r" "r < int (length (data (sections ! g)))" for r
  proof -
    have v: "getFlatIndex ?m (int g) r = ?h + 1 + r"
      using r by (simp add: getFlatIndex_def updateData_fields(1,2) at sb boundary_at_def Let_def)
    from record_entry[OF assms(2) r, of m] show ?thesis by (simp add: v h)
  qed
  have b: "\<exists>b. sectionBoundaries ?m (key (sections ! g)) = Some b
          \<and> b_sectionIndex b = int g
          \<and> headerFlatIndex b = getFlatIndex ?m (int g) (-1)
          \<and> (\<forall>r. key (sections ! g) \<notin> collapsed \<and> 0 \<le> r
                  \<and> r < int (length (data (sections ! g))) \<longrightarrow>
                getFlatIndex ?m (int g) r = firstItemFlatIndex b + r)"
  proof (intro exI conjI)
    show "sectionBoundaries ?m (key (sections ! g)) = Some (boundary_at sections collapsed ?f g ?h)"
      by (rule sb)
    show "b_sectionIndex (boundary_at sections collapsed ?f g ?h) = int g"
      by (simp add: boundary_at_def Let_def)
    show "headerFlatIndex (boundary_at sections collapsed ?f g ?h) = getFlatIndex ?m (int g) (-1)"
      by (simp add: h boundary_at_def Let_def)
    show "\<forall>r. key (sections ! g) \<notin> collapsed \<and> 0 \<le> r
                  \<and> r < int (length (data (sections ! g))) \<longrightarrow>
                getFlatIndex ?m (int g) r
                  = firstItemFlatIndex (boundary_at sections collapsed ?f g ?h) + r"
      by (simp add: getFlatIndex_def updateData_fields(1,2) at sb)
  qed
  from h hs c i b show ?thesis by blast
qed

lemma example_header_positions:
  "header_position example_sections {''b''} False (Suc 0) = 3"
  "header_position example_sections {''b''} False 2 = 4"
  by (simp_all add: header_position_def group_size_def example_sections_def lessThan_Suc numeral_2_eq_2)

text \<open>
  The scenario of the specification: groups of 2, 0 and 3 records, no footers, the second
  group collapsed. The lookup of record 0 of group 1 returns \<open>-1\<close>.
\<close>

theorem getFlatIndex_after_updateData_witness:
  "getFlatIndex (snd (updateData example_manager example_sections {''b''})) 1 0 = -1
   \<and> getFlatIndex (snd (updateData example_manager example_sections {''b''})) 1 (-1) = 3
   \<and> getFlatIndex (snd (updateData example_manager example_sections {''b''})) 2 (-1) = 4
   \<and> getFlatIndex (snd (updateData example_manager example_sections {''b''})) 2 2 = 7
   \<and> getSectionItemIndex (snd (updateData example_manager example_sections {''b''})) 7
        = (2, 2, False, False)"
proof -
  have f: "hasSectionFooters example_manager = False"
    by (simp add: example_manager_def createSectionLayoutManager_def)
  have d: "distinct (map key example_sections)"
    by (simp add: example_sections_def)
  have l1: "(1::nat) < length example_sections" and l2: "(2::nat) < length example_sections"
    by (simp_all add: example_sections_def)
  have k1: "key (example_sections ! Suc 0) = ''b''" and k2: "key (example_sections ! 2) = ''c''"
    and n2: "length (data (example_sections ! 2)) = 3"
    by (simp_all add: example_sections_def)
  from getFlatIndex_after_updateData[OF d l1, of example_manager "{''b''}"]
  have a: "getFlatIndex (snd (updateData example_manager example_sections {''b''})) 1 0 = -1"
    and b: "getFlatIndex (snd (updateData example_manager example_sections {''b''})) 1 (-1) = 3"
    by (auto simp: k1 f example_header_positions)
  note t = getFlatIndex_after_updateData[OF d l2, of example_manager "{''b''}"]
  from t have c: "getFlatIndex (snd (updateData example_manager example_sections {''b''})) 2 (-1) = 4"
    by (simp add: f example_header_positions)
  from t[THEN conjunct2, THEN conjunct2, THEN conjunct2, THEN conjunct1, rule_format, of 2] c
  have e: "getFlatIndex (snd (updateData example_manager example_sections {''b''})) 2 2 = 7"
    and g: "getSectionItemIndex (snd (updateData example_manager example_sections {''b''})) 7
         = (2, 2, False, False)"
    by (auto simp: k2 n2)
  from a b c e g show ?thesis by simp
qed

lemma fold_two: "fold f [0..<2] a = f 1 (f 0 a)"
  by (simp add: numeral_2_eq_2)

text \<open>
  The boundaries are stored under the section keys, so of two groups with the same key
  the later one overwrites the earlier. Two groups with the key \<open>a\<close>, of 2 and 1 records:
  the header of group 0 is at flat index 0, and the lookup of the header of group 0
  returns 3, the header of group 1; the lookup of record 1 of group 0 returns 5, the
  length of the flattened data.
\<close>

theorem getFlatIndex_repeated_key_counterexample:
  "getFlatIndex (snd (updateData example_manager repeated_key_sections {})) 0 (-1) = 3
   \<and> getSectionItemIndex (snd (updateData example_manager repeated_key_sections {})) 0 = (0, -1, True, False)
   \<and> getSectionItemIndex (snd (updateData example_manager repeated_key_sections {})) 3 = (1, -1, True, False)
   \<and> getFlatIndex (snd (updateData example_manager repeated_key_sections {})) 0 1 = 5
   \<and> length (fst (updateData example_manager repeated_key_sections {})) = 5"
proof -
  let ?m = "snd (updateData example_manager repeated_key_sections {})"
  have f: "hasSectionFooters example_manager = False"
    by (simp add: example_manager_def createSectionLayoutManager_def)
  have l: "length repeated_key_sections = 2" by (simp add: repeated_key_sections_def)
  have hp: "header_position repeated_key_sections {} False 0 = 0"
    "header_position repeated_key_sections {} False (Suc 0) = 3"
    "header_position repeated_key_sections {} False 2 = 5"
    by (simp_all add: header_position_def group_size_def repeated_key_sections_def lessThan_Suc
        numeral_2_eq_2)
  have sb: "sectionBoundaries ?m ''a'' = Some (boundary_at repeated_key_sections {} False 1 3)"
    by (simp add: updateData_fields f l fold_two updateData_step_snd group_size_def
        repeated_key_sections_def)
  have at: "item_at repeated_key_sections 0 = Some (repeated_key_sections ! 0)"
    by (simp add: item_at_def l)
  have k: "key (repeated_key_sections ! 0) = ''a''" "length (data (repeated_key_sections ! 0)) = 2"
    by (simp_all add: repeated_key_sections_def)
  have a: "getFlatIndex ?m 0 (-1) = 3"
    by (simp add: getFlatIndex_def updateData_fields(1,2) at k sb boundary_at_def Let_def)
  have b: "getFlatIndex ?m 0 1 = 5"
    by (simp add: getFlatIndex_def updateData_fields(1,2) at k sb boundary_at_def Let_def)
  have c: "getSectionItemIndex ?m 0 = (0, -1, True, False)"
    using header_entry[of 0 repeated_key_sections example_manager "{}"] by (simp add: l f hp)
  have d: "getSectionItemIndex ?m 3 = (1, -1, True, False)"
    using header_entry[of 1 repeated_key_sections example_manager "{}"] by (simp add: l f hp)
  have e: "int (length (fst (updateData example_manager repeated_key_sections {}))) = 5"
    using flatten_length[of repeated_key_sections "{}" False 2]
    by (simp add: updateData_def Let_def updateData_fold_fst f l hp)
  from a b c d e show ?thesis by simp
qed

text \<open>
  The standalone \<open>getFlatIndex\<close> of the utilities is another function than the manager's
  lookup: it has no \<open>-1\<close> result, and it counts the header of the target group before it
  answers, so that for a header and for a collapsed group it returns the position after
  the group's header.
\<close>

lemma upto_0_0: "[0..(0::int)] = [0]"
  by (simp add: upto.simps)

lemma getFlatIndex_util_example:
  "getFlatIndex_util example_sections 1 0 {''b''} False = Some 4"
  "getFlatIndex_util example_sections 1 (-1) {''b''} False = Some 4"
  "getFlatIndex_util example_sections 0 (-1) {''b''} False = Some 1"
  by (simp_all add: getFlatIndex_util_def upto_0_0 item_at_def example_sections_def)

subsection \<open>The positioner\<close>

lemma layout_step_eq:
  "layout_step p (crossAxis p) k (layouts_of p k, offset_of p k) =
     (layouts_of p (Suc k), offset_of p (Suc k))"
proof -
  have m: "(layouts_of p k)(int k \<mapsto> layout_of p k) = layouts_of p (Suc k)"
    by (rule ext) (auto simp: layouts_of_def)
  have "layout_step p (crossAxis p) k (layouts_of p k, offset_of p k) =
      ((layouts_of p k)(int k \<mapsto> layout_of p k), offset_of p k + getItemSize p (int k))"
    by (simp add: layout_step_def Let_def layout_of_def)
  also have "offset_of p k + getItemSize p (int k) = offset_of p (Suc k)"
    by (simp add: offset_of_def)
  finally show ?thesis by (simp only: m)
qed

lemma layout_fold:
  "fold (layout_step p (crossAxis p)) [0..<k] (Map.empty, 0) = (layouts_of p k, offset_of p k)"
proof (induction k)
  case 0
  show ?case by (simp add: layouts_of_def offset_of_def fun_eq_iff)
next
  case (Suc k)
  then show ?case by (simp add: layout_step_eq)
qed

lemma getItemSize_cong:
  assumes "flattenedData q = flattenedData p" "layoutCache q = layoutCache p"
    "getItemType q = getItemType p" "horizontal q = horizontal p"
    "estimatedItemSize q = estimatedItemSize p" "estimatedHeaderSize q = estimatedHeaderSize p"
    "estimatedFooterSize q = estimatedFooterSize p"
  shows "getItemSize q = getItemSize p"
  by (rule ext) (simp add: getItemSize_def getEstimatedSize_def assms cong: option.case_cong if_cong)

lemma ensure_unfold:
  "\<not> layoutsValid p \<Longrightarrow> ensureLayoutsComputed p =
     p\<lparr>computedLayouts := layouts_of p (length (flattenedData p)),
       totalContentSize := (if horizontal p then (offset_of p (length (flattenedData p)), crossAxis p)
                            else (crossAxis p, offset_of p (length (flattenedData p)))),
       layoutsValid := True\<rparr>"
  using layout_fold[of p "length (flattenedData p)"]
  by (cases "horizontal p") (simp_all add: ensureLayoutsComputed_def Let_def crossAxis_def)

lemma frame_fields:
  assumes "flattenedData q = flattenedData p" "layoutCache q = layoutCache p"
    "getItemType q = getItemType p" "horizontal q = horizontal p"
    "estimatedItemSize q = estimatedItemSize p" "estimatedHeaderSize q = estimatedHeaderSize p"
    "estimatedFooterSize q = estimatedFooterSize p"
    "containerWidth q = containerWidth p" "containerHeight q = containerHeight p"
  shows "offset_of q = offset_of p" "layout_of q = layout_of p" "layouts_of q = layouts_of p"
    "crossAxis q = crossAxis p"
proof -
  have s: "getItemSize q = getItemSize p" using assms by (intro getItemSize_cong)
  show o: "offset_of q = offset_of p" by (rule ext) (simp add: offset_of_def s)
  show c: "crossAxis q = crossAxis p" by (simp add: crossAxis_def assms)
  show l: "layout_of q = layout_of p" by (rule ext) (simp add: layout_of_def s o c assms)
  show "layouts_of q = layouts_of p" by (rule ext)+ (simp add: layouts_of_def l)
qed

lemma ensure_consistent: "layouts_consistent p \<Longrightarrow> layouts_consistent (ensureLayoutsComputed p)"
proof (cases "layoutsValid p")
  case True
  then show "layouts_consistent p \<Longrightarrow> ?thesis" by (simp add: ensureLayoutsComputed_def)
next
  case False
  let ?q = "ensureLayoutsComputed p"
  have f: "offset_of ?q = offset_of p" "layouts_of ?q = layouts_of p" "crossAxis ?q = crossAxis p"
    by (rule frame_fields; simp add: ensure_unfold[OF False])+
  show ?thesis
    unfolding layouts_consistent_def f by (simp add: ensure_unfold[OF False])
qed

lemma ensure_valid: "layoutsValid (ensureLayoutsComputed p)"
  by (simp add: ensureLayoutsComputed_def Let_def)

lemma invalid_consistent: "\<not> layoutsValid p \<Longrightarrow> layouts_consistent p"
  by (simp add: layouts_consistent_def)

lemma reachable_consistent: "reachable p \<Longrightarrow> layouts_consistent p"
proof (induction rule: reachable.induct)
  case (created lc git opts)
  show ?case by (simp add: invalid_consistent createLayoutPositioner_def)
next
  case (after_setData p git fd)
  show ?case by (simp add: invalid_consistent setData_def invalidateAll_def)
next
  case (after_setContainerSize p w h)
  then show ?case by (auto simp: setContainerSize_def invalidateAll_def intro: invalid_consistent)
next
  case (after_updateItemLayout p index layout)
  then show ?case
    by (auto simp: updateItemLayout_def invalidateFrom_def Let_def intro: invalid_consistent
        split: option.splits)
next
  case (after_invalidateFrom p index)
  show ?case by (simp add: invalid_consistent invalidateFrom_def)
next
  case (after_invalidateAll p)
  show ?case by (simp add: invalid_consistent invalidateAll_def)
next
  case (after_getLayoutForIndex p index)
  then show ?case by (simp add: getLayoutForIndex_def Let_def ensure_consistent)
next
  case (after_getContentSize p)
  then show ?case by (simp add: getContentSize_def Let_def ensure_consistent)
next
  case (after_getVisibleRange p so vs ov)
  then show ?case by (simp add: getVisibleRange_def Let_def ensure_consistent)
next
  case (after_getIndexForOffset p offset)
  then show ?case by (simp add: getIndexForOffset_def Let_def ensure_consistent)
qed

lemma ensure_fields:
  "flattenedData (ensureLayoutsComputed p) = flattenedData p"
  "layoutCache (ensureLayoutsComputed p) = layoutCache p"
  "getItemType (ensureLayoutsComputed p) = getItemType p"
  "horizontal (ensureLayoutsComputed p) = horizontal p"
  "estimatedItemSize (ensureLayoutsComputed p) = estimatedItemSize p"
  "estimatedHeaderSize (ensureLayoutsComputed p) = estimatedHeaderSize p"
  "estimatedFooterSize (ensureLayoutsComputed p) = estimatedFooterSize p"
  "containerWidth (ensureLayoutsComputed p) = containerWidth p"
  "containerHeight (ensureLayoutsComputed p) = containerHeight p"
  by (simp_all add: ensureLayoutsComputed_def Let_def)

lemma ensure_computed:
  assumes "layouts_consistent p"
  shows "computedLayouts (ensureLayoutsComputed p) = layouts_of p (length (flattenedData p))"
    and "totalContentSize (ensureLayoutsComputed p) =
          (if horizontal p then (offset_of p (length (flattenedData p)), crossAxis p)
           else (crossAxis p, offset_of p (length (flattenedData p))))"
proof -
  let ?q = "ensureLayoutsComputed p"
  have c: "layouts_consistent ?q" using assms by (rule ensure_consistent)
  have f: "offset_of ?q = offset_of p" "layouts_of ?q = layouts_of p" "crossAxis ?q = crossAxis p"
    by (rule frame_fields; simp add: ensure_fields)+
  from c ensure_valid[of p] show "computedLayouts ?q = layouts_of p (length (flattenedData p))"
    and "totalContentSize ?q =
          (if horizontal p then (offset_of p (length (flattenedData p)), crossAxis p)
           else (crossAxis p, offset_of p (length (flattenedData p))))"
    by (simp_all add: layouts_consistent_def f ensure_fields)
qed

lemma getLayoutForIndex_eq:
  assumes "layouts_consistent p"
  shows "fst (getLayoutForIndex p index) =
     (if 0 \<le> index \<and> index < int (length (flattenedData p)) then layout_of p (nat index) else zeroRect)"
  by (simp add: getLayoutForIndex_def Let_def ensure_computed[OF assms] layouts_of_def)

lemma getItemSize_resolved:
  "j < length (flattenedData p) \<Longrightarrow>
     getItemSize p (int j) = resolved_size p (flattenedData p ! j) (getItemType p (int j))"
  by (auto simp: getItemSize_def getEstimatedSize_def resolved_size_def item_at_def cache_get_def
      main_size_def split: option.splits FlattenedItemType.splits)

text \<open>
  Claim C9. In every state the positioner can reach through its operations, and for every
  index that is negative or at least the number of items, \<open>getLayoutForIndex\<close> returns
  the zero rect \<open>{x: 0, y: 0, width: 0, height: 0}\<close>. The function has no raising path:
  it is total in the model as in the source.
\<close>

theorem getLayoutForIndex_out_of_range:
  assumes "reachable p" and "index < 0 \<or> int (length (flattenedData p)) \<le> index"
  shows "fst (getLayoutForIndex p index) = \<lparr>rx = 0, ry = 0, width = 0, height = 0\<rparr>"
  using assms(2) getLayoutForIndex_eq[OF reachable_consistent[OF assms(1)], of index]
  by (auto simp: zeroRect_def)

lemma uniform_reachable: "reachable uniform_positioner"
  unfolding uniform_positioner_def by (intro reachable.after_setData reachable.created)

lemma uniform_fields:
  "flattenedData uniform_positioner = uniform_items"
  "length uniform_items = 6"
  "horizontal uniform_positioner = False"
  "getItemType uniform_positioner = (\<lambda>i. ''default'')"
  "layoutCache uniform_positioner = createLayoutCache"
  "estimatedItemSize uniform_positioner = 50"
  "containerWidth uniform_positioner = 0"
  "layoutsValid uniform_positioner = False"
  by (simp_all add: uniform_positioner_def setData_def invalidateAll_def createLayoutPositioner_def
      no_options_def uniform_items_def DEFAULT_ESTIMATED_ITEM_SIZE_def)

text \<open>
  Six items: the indices 6 and -1 are out of range.
\<close>

theorem getLayoutForIndex_out_of_range_witness:
  "fst (getLayoutForIndex uniform_positioner 6) = \<lparr>rx = 0, ry = 0, width = 0, height = 0\<rparr>
   \<and> fst (getLayoutForIndex uniform_positioner (-1)) = \<lparr>rx = 0, ry = 0, width = 0, height = 0\<rparr>"
  using getLayoutForIndex_out_of_range[OF uniform_reachable, of 6]
    getLayoutForIndex_out_of_range[OF uniform_reachable, of "-1"]
  by (simp add: uniform_fields)

lemma offset_of_mono:
  assumes "\<forall>j<n. 0 \<le> getItemSize p (int j)" "i \<le> j" "j \<le> n"
  shows "offset_of p i \<le> offset_of p j"
proof -
  have "offset_of p j = offset_of p i + (\<Sum>k = i..<j. getItemSize p (int k))"
    unfolding offset_of_def using assms(2)
    by (simp add: lessThan_atLeast0 sum.atLeastLessThan_concat)
  moreover have "0 \<le> (\<Sum>k = i..<j. getItemSize p (int k))"
    using assms by (intro sum_nonneg) auto
  ultimately show ?thesis by simp
qed

lemma main_start_layout_of: "main_start p (layout_of p i) = offset_of p i"
  by (simp add: main_start_def layout_of_def)

lemma main_size_layout_of: "main_size p (layout_of p i) = getItemSize p (int i)"
  by (simp add: main_size_def layout_of_def)

lemma getContentSize_eq:
  assumes "layouts_consistent p"
  shows "main_extent p (fst (getContentSize p)) = offset_of p (length (flattenedData p))"
  by (simp add: getContentSize_def Let_def ensure_computed[OF assms] main_extent_def)

text \<open>
  Claim C6, as amended. In every reachable state of the positioner, the main-axis
  component of \<open>getContentSize\<close> (the width when horizontal, the height otherwise) is
  the sum of the resolved sizes of all items, where the resolved size is the measured size if the key
  is cached, else the average of the item's type, else the estimated default of its
  kind; and when these sizes are not negative, the start offsets of the layouts returned
  for the indices are non-decreasing in the index.
\<close>

theorem offsets_nondecreasing_content_size_sum:
  assumes "reachable p"
  shows "main_extent p (fst (getContentSize p)) =
           (\<Sum>j<length (flattenedData p).
              resolved_size p (flattenedData p ! j) (getItemType p (int j)))
       \<and> ((\<forall>j<length (flattenedData p).
              0 \<le> resolved_size p (flattenedData p ! j) (getItemType p (int j))) \<longrightarrow>
          (\<forall>i j. i \<le> j \<and> j < length (flattenedData p) \<longrightarrow>
              main_start p (fst (getLayoutForIndex p (int i)))
                \<le> main_start p (fst (getLayoutForIndex p (int j)))))"
proof -
  note c = reachable_consistent[OF assms]
  let ?n = "length (flattenedData p)"
  have s: "main_extent p (fst (getContentSize p)) =
           (\<Sum>j<?n. resolved_size p (flattenedData p ! j) (getItemType p (int j)))"
    by (simp add: getContentSize_eq[OF c] offset_of_def getItemSize_resolved)
  have m: "main_start p (fst (getLayoutForIndex p (int i)))
        \<le> main_start p (fst (getLayoutForIndex p (int j)))"
    if nn: "\<forall>j<?n. 0 \<le> resolved_size p (flattenedData p ! j) (getItemType p (int j))"
      and ij: "i \<le> j" "j < ?n" for i j
  proof -
    from nn have "\<forall>j<?n. 0 \<le> getItemSize p (int j)" by (simp add: getItemSize_resolved)
    from offset_of_mono[OF this ij(1)] ij(2) have "offset_of p i \<le> offset_of p j" by simp
    with ij show ?thesis by (simp add: getLayoutForIndex_eq[OF c] main_start_layout_of)
  qed
  from s m show ?thesis by blast
qed

lemma uniform_nth: "j < 6 \<Longrightarrow> uniform_items ! j = uniform_item j"
  by (simp add: uniform_items_def)

lemma uniform_sizes: "getItemSize uniform_positioner i = 50"
  by (auto simp: getItemSize_def getEstimatedSize_def uniform_fields item_at_def cache_get_def
      createLayoutCache_def getAverageSize_def uniform_nth uniform_item_def)

lemma uniform_offsets: "offset_of uniform_positioner i = 50 * real i"
  by (simp add: offset_of_def uniform_sizes)

text \<open>
  Six unmeasured items of estimated size 50: the content extent is 300, and the offset of
  index 2 is at most the offset of index 5.
\<close>

theorem offsets_nondecreasing_content_size_sum_witness:
  "main_extent uniform_positioner (fst (getContentSize uniform_positioner)) = 300
   \<and> main_start uniform_positioner (fst (getLayoutForIndex uniform_positioner 2))
       \<le> main_start uniform_positioner (fst (getLayoutForIndex uniform_positioner 5))"
proof -
  have r: "resolved_size uniform_positioner (uniform_items ! j) ''default'' = 50" if "j < 6" for j
    using getItemSize_resolved[of j uniform_positioner] that by (simp add: uniform_fields uniform_sizes)
  from offsets_nondecreasing_content_size_sum[OF uniform_reachable]
  show ?thesis
    apply (simp add: uniform_fields r)
    apply (drule conjunct2)
    apply (drule spec[of _ 2], drule spec[of _ 5])
    apply simp
    done
qed

text \<open>
  The resolved sizes are not negative when the estimated defaults, the measured sizes in
  the cache and the recorded totals of the types are not negative.
\<close>

lemma resolved_size_nonneg:
  assumes "0 \<le> estimatedItemSize p" "0 \<le> estimatedHeaderSize p" "0 \<le> estimatedFooterSize p"
    and "\<And>k l. cache (layoutCache p) k = Some l \<Longrightarrow> 0 \<le> main_size p l"
    and "\<And>t st. typeStats (layoutCache p) t = Some st \<Longrightarrow> 0 \<le> totalSize st"
  shows "0 \<le> resolved_size p it ty"
proof (cases "cache (layoutCache p) (fkey it)")
  case (Some l)
  with assms(4) show ?thesis by (simp add: resolved_size_def)
next
  case None
  show ?thesis
  proof (cases "getAverageSize (layoutCache p) ty")
    case (Some a)
    then obtain st where "typeStats (layoutCache p) ty = Some st" "a = totalSize st / real (count st)"
      by (auto simp: getAverageSize_def split: option.splits if_splits)
    with assms(5) have "0 \<le> a" by simp
    with None Some show ?thesis by (simp add: resolved_size_def)
  next
    case n: None
    with None assms(1-3) show ?thesis
      by (simp add: resolved_size_def split: FlattenedItemType.splits)
  qed
qed



lemma updateItemLayout_unfold:
  assumes "item_at (flattenedData p) index = Some it"
  shows "updateItemLayout p index layout =
     invalidateFrom (p\<lparr>layoutCache :=
        cache_set (recordMeasurement (layoutCache p) (getItemType p index)
                     (if horizontal p then width layout else height layout)) (fkey it) layout\<rparr>) index"
  by (simp add: updateItemLayout_def assms Let_def)

lemma updateItemLayout_fields:
  "flattenedData (updateItemLayout p index layout) = flattenedData p"
  "getItemType (updateItemLayout p index layout) = getItemType p"
  "horizontal (updateItemLayout p index layout) = horizontal p"
  "estimatedItemSize (updateItemLayout p index layout) = estimatedItemSize p"
  "estimatedHeaderSize (updateItemLayout p index layout) = estimatedHeaderSize p"
  "estimatedFooterSize (updateItemLayout p index layout) = estimatedFooterSize p"
  "containerWidth (updateItemLayout p index layout) = containerWidth p"
  "containerHeight (updateItemLayout p index layout) = containerHeight p"
  by (simp_all add: updateItemLayout_def invalidateFrom_def Let_def split: option.splits)

lemma updateItemLayout_cache:
  assumes "item_at (flattenedData p) index = Some it"
  shows "cache (layoutCache (updateItemLayout p index layout)) = (cache (layoutCache p))(fkey it \<mapsto> layout)"
    and "ty \<noteq> getItemType p index \<Longrightarrow>
      getAverageSize (layoutCache (updateItemLayout p index layout)) ty = getAverageSize (layoutCache p) ty"
  by (simp_all add: updateItemLayout_unfold[OF assms] invalidateFrom_def cache_set_def
      recordMeasurement_def Let_def getAverageSize_def)







lemma decimal_digit: "n < 10 \<Longrightarrow> decimal n = [digit_char n]"
  by (simp add: decimal.simps)



lemma uniform_negative_size:
  "getItemSize (updateItemLayout uniform_positioner 2 \<lparr>rx = 0, ry = 100, width = 0, height = -30\<rparr>) 0
     = -30"
proof -
  let ?q = "updateItemLayout uniform_positioner 2 \<lparr>rx = 0, ry = 100, width = 0, height = -30\<rparr>"
  have it: "item_at (flattenedData uniform_positioner) 2 = Some (uniform_item 2)"
    by (simp add: uniform_fields item_at_def uniform_nth)
  have k: "fkey (uniform_item 0) \<noteq> fkey (uniform_item 2)"
    by (simp add: uniform_item_def decimal_digit digit_char_def)
  have a: "getAverageSize (layoutCache ?q) ''default'' = Some (-30)"
    by (simp add: updateItemLayout_unfold[OF it] invalidateFrom_def cache_set_def
        recordMeasurement_def Let_def getAverageSize_def uniform_fields createLayoutCache_def)
  have "resolved_size ?q (uniform_items ! 0) ''default'' = -30"
    using k
    by (simp add: resolved_size_def updateItemLayout_cache(1)[OF it] a uniform_nth uniform_fields
        createLayoutCache_def)
  then show ?thesis
    using getItemSize_resolved[of 0 ?q]
    by (simp add: updateItemLayout_fields uniform_fields)
qed

text \<open>
  The claim C6 as stated fails for the offsets. Six unmeasured records of one type: after
  \<open>updateItemLayout(2, {height: -30})\<close>, a state the positioner reaches, the average of
  the type is \<open>-30\<close>, the start offset of index 0 is 0 and the start offset of index 1 is
  \<open>-30\<close>.
\<close>

theorem negative_size_offsets_counterexample:
  "reachable (updateItemLayout uniform_positioner 2 \<lparr>rx = 0, ry = 100, width = 0, height = -30\<rparr>)
   \<and> main_start (updateItemLayout uniform_positioner 2 \<lparr>rx = 0, ry = 100, width = 0, height = -30\<rparr>)
       (fst (getLayoutForIndex (updateItemLayout uniform_positioner 2
          \<lparr>rx = 0, ry = 100, width = 0, height = -30\<rparr>) 0)) = 0
   \<and> main_start (updateItemLayout uniform_positioner 2 \<lparr>rx = 0, ry = 100, width = 0, height = -30\<rparr>)
       (fst (getLayoutForIndex (updateItemLayout uniform_positioner 2
          \<lparr>rx = 0, ry = 100, width = 0, height = -30\<rparr>) 1)) = -30
   \<and> \<not> main_start (updateItemLayout uniform_positioner 2 \<lparr>rx = 0, ry = 100, width = 0, height = -30\<rparr>)
         (fst (getLayoutForIndex (updateItemLayout uniform_positioner 2
            \<lparr>rx = 0, ry = 100, width = 0, height = -30\<rparr>) 0))
       \<le> main_start (updateItemLayout uniform_positioner 2 \<lparr>rx = 0, ry = 100, width = 0, height = -30\<rparr>)
         (fst (getLayoutForIndex (updateItemLayout uniform_positioner 2
            \<lparr>rx = 0, ry = 100, width = 0, height = -30\<rparr>) 1))"
proof -
  let ?q = "updateItemLayout uniform_positioner 2 \<lparr>rx = 0, ry = 100, width = 0, height = -30\<rparr>"
  have r: "reachable ?q"
    by (intro reachable.after_updateItemLayout uniform_reachable)
  note cq = reachable_consistent[OF r]
  have o0: "main_start ?q (fst (getLayoutForIndex ?q 0)) = 0"
    using getLayoutForIndex_eq[OF cq, of 0]
    by (simp add: updateItemLayout_fields uniform_fields main_start_layout_of offset_of_def)
  have "offset_of ?q (Suc 0) = -30"
    using uniform_negative_size by (simp add: offset_of_def)
  then have o1: "main_start ?q (fst (getLayoutForIndex ?q 1)) = -30"
    using getLayoutForIndex_eq[OF cq, of 1]
    by (simp add: updateItemLayout_fields uniform_fields main_start_layout_of)
  from r o0 o1 show ?thesis by simp
qed

lemma offset_of_Suc: "offset_of p (Suc i) = offset_of p i + getItemSize p (int i)"
  by (simp add: offset_of_def)

lemma bs_start_step:
  assumes cl: "computedLayouts q = layouts_of p n" and hz: "horizontal q = horizontal p"
    and "low < high" "0 \<le> low" "high < int n"
  shows "binarySearchStart_loop q offset low high =
     (if offset_of p (Suc (nat ((low + high) div 2))) \<le> offset
      then binarySearchStart_loop q offset ((low + high) div 2 + 1) high
      else binarySearchStart_loop q offset low ((low + high) div 2))"
proof -
  let ?mid = "(low + high) div 2"
  have m: "0 \<le> ?mid" "?mid < int n" using assms by auto
  then have l: "computedLayouts q ?mid = Some (layout_of p (nat ?mid))"
    by (simp add: cl layouts_of_def)
  have e: "(if horizontal q then rx (layout_of p (nat ?mid)) + width (layout_of p (nat ?mid))
            else ry (layout_of p (nat ?mid)) + height (layout_of p (nat ?mid)))
           = offset_of p (Suc (nat ?mid))"
    by (simp add: hz layout_of_def offset_of_Suc)
  show ?thesis
    by (subst binarySearchStart_loop.simps) (simp add: assms(3) l e Let_def)
qed

lemma bs_start_loop:
  assumes cl: "computedLayouts q = layouts_of p n" and hz: "horizontal q = horizontal p"
    and nn: "\<forall>j<n. 0 \<le> getItemSize p (int j)"
  shows "0 \<le> low \<Longrightarrow> low \<le> high \<Longrightarrow> high < int n \<Longrightarrow>
     low \<le> binarySearchStart_loop q offset low high
     \<and> binarySearchStart_loop q offset low high \<le> high
     \<and> (\<forall>i. low \<le> i \<and> i < binarySearchStart_loop q offset low high \<longrightarrow>
            offset_of p (Suc (nat i)) \<le> offset)
     \<and> (binarySearchStart_loop q offset low high < high \<longrightarrow>
            offset < offset_of p (Suc (nat (binarySearchStart_loop q offset low high))))"
proof (induction "nat (high - low)" arbitrary: low high rule: less_induct)
  case less
  show ?case
  proof (cases "low < high")
    case False
    then have "binarySearchStart_loop q offset low high = low"
      by (subst binarySearchStart_loop.simps) simp
    with less.prems False show ?thesis by simp
  next
    case True
    define mid where "mid = (low + high) div 2"
    have m: "low \<le> mid" "mid < high" "0 \<le> mid" "mid < int n"
      using True less.prems by (auto simp: mid_def)
    note step = bs_start_step[OF cl hz True less.prems(1,3), of offset, folded mid_def]
    show ?thesis
    proof (cases "offset_of p (Suc (nat mid)) \<le> offset")
      case le: True
      let ?r = "binarySearchStart_loop q offset (mid + 1) high"
      have r: "binarySearchStart_loop q offset low high = ?r" using step le by simp
      have "nat (high - (mid + 1)) < nat (high - low)" using m by simp
      from less.hyps[OF this] m less.prems
      have ih: "mid + 1 \<le> ?r" "?r \<le> high"
        "\<forall>i. mid + 1 \<le> i \<and> i < ?r \<longrightarrow> offset_of p (Suc (nat i)) \<le> offset"
        "?r < high \<longrightarrow> offset < offset_of p (Suc (nat ?r))"
        by simp_all
      have "offset_of p (Suc (nat i)) \<le> offset" if "low \<le> i" "i < ?r" for i
      proof (cases "i \<le> mid")
        case True
        have "offset_of p (Suc (nat i)) \<le> offset_of p (Suc (nat mid))"
          using True m that less.prems by (intro offset_of_mono[OF nn]) auto
        with le show ?thesis by simp
      next
        case False
        with ih(3) that show ?thesis by simp
      qed
      with ih m show ?thesis unfolding r by auto
    next
      case gt: False
      let ?r = "binarySearchStart_loop q offset low mid"
      have r: "binarySearchStart_loop q offset low high = ?r" using step gt by simp
      have "nat (mid - low) < nat (high - low)" using m by simp
      from less.hyps[OF this] m less.prems
      have ih: "low \<le> ?r" "?r \<le> mid"
        "\<forall>i. low \<le> i \<and> i < ?r \<longrightarrow> offset_of p (Suc (nat i)) \<le> offset"
        "?r < mid \<longrightarrow> offset < offset_of p (Suc (nat ?r))"
        by simp_all
      have "offset < offset_of p (Suc (nat ?r))"
      proof (cases "?r < mid")
        case True
        with ih(4) show ?thesis by simp
      next
        case False
        with ih(2) have "?r = mid" by simp
        with gt show ?thesis by simp
      qed
      with ih m show ?thesis unfolding r by auto
    qed
  qed
qed

lemma bs_end_step:
  assumes cl: "computedLayouts q = layouts_of p n" and hz: "horizontal q = horizontal p"
    and "low < high" "0 \<le> low" "high < int n"
  shows "binarySearchEnd_loop q offset low high =
     (if offset \<le> offset_of p (nat ((low + high + 1) div 2))
      then binarySearchEnd_loop q offset low ((low + high + 1) div 2 - 1)
      else binarySearchEnd_loop q offset ((low + high + 1) div 2) high)"
proof -
  let ?mid = "(low + high + 1) div 2"
  have m: "0 \<le> ?mid" "?mid < int n" using assms by auto
  then have l: "computedLayouts q ?mid = Some (layout_of p (nat ?mid))"
    by (simp add: cl layouts_of_def)
  have e: "(if horizontal q then rx (layout_of p (nat ?mid)) else ry (layout_of p (nat ?mid)))
           = offset_of p (nat ?mid)"
    by (simp add: hz layout_of_def)
  show ?thesis
    by (subst binarySearchEnd_loop.simps) (simp add: assms(3) l e Let_def)
qed

lemma bs_end_loop:
  assumes cl: "computedLayouts q = layouts_of p n" and hz: "horizontal q = horizontal p"
    and nn: "\<forall>j<n. 0 \<le> getItemSize p (int j)"
  shows "0 \<le> low \<Longrightarrow> low \<le> high \<Longrightarrow> high < int n \<Longrightarrow>
     low \<le> binarySearchEnd_loop q offset low high
     \<and> binarySearchEnd_loop q offset low high \<le> high
     \<and> (\<forall>i. binarySearchEnd_loop q offset low high < i \<and> i \<le> high \<longrightarrow>
            offset \<le> offset_of p (nat i))
     \<and> (low < binarySearchEnd_loop q offset low high \<longrightarrow>
            offset_of p (nat (binarySearchEnd_loop q offset low high)) < offset)"
proof (induction "nat (high - low)" arbitrary: low high rule: less_induct)
  case less
  show ?case
  proof (cases "low < high")
    case False
    then have "binarySearchEnd_loop q offset low high = high"
      by (subst binarySearchEnd_loop.simps) simp
    with less.prems False show ?thesis by simp
  next
    case True
    define mid where "mid = (low + high + 1) div 2"
    have m: "low < mid" "mid \<le> high" "0 \<le> mid" "mid < int n"
      using True less.prems by (auto simp: mid_def)
    note step = bs_end_step[OF cl hz True less.prems(1,3), of offset, folded mid_def]
    show ?thesis
    proof (cases "offset \<le> offset_of p (nat mid)")
      case ge: True
      let ?r = "binarySearchEnd_loop q offset low (mid - 1)"
      have r: "binarySearchEnd_loop q offset low high = ?r" using step ge by simp
      have "nat (mid - 1 - low) < nat (high - low)" using m by simp
      from less.hyps[OF this] m less.prems
      have ih: "low \<le> ?r" "?r \<le> mid - 1"
        "\<forall>i. ?r < i \<and> i \<le> mid - 1 \<longrightarrow> offset \<le> offset_of p (nat i)"
        "low < ?r \<longrightarrow> offset_of p (nat ?r) < offset"
        by simp_all
      have "offset \<le> offset_of p (nat i)" if "?r < i" "i \<le> high" for i
      proof (cases "mid \<le> i")
        case True
        have "offset_of p (nat mid) \<le> offset_of p (nat i)"
          using True m that less.prems by (intro offset_of_mono[OF nn]) auto
        with ge show ?thesis by simp
      next
        case False
        with ih(3) that show ?thesis by simp
      qed
      with ih m show ?thesis unfolding r by auto
    next
      case lt: False
      let ?r = "binarySearchEnd_loop q offset mid high"
      have r: "binarySearchEnd_loop q offset low high = ?r" using step lt by simp
      have "nat (high - mid) < nat (high - low)" using m by simp
      from less.hyps[OF this] m less.prems
      have ih: "mid \<le> ?r" "?r \<le> high"
        "\<forall>i. ?r < i \<and> i \<le> high \<longrightarrow> offset \<le> offset_of p (nat i)"
        "mid < ?r \<longrightarrow> offset_of p (nat ?r) < offset"
        by simp_all
      have "offset_of p (nat ?r) < offset"
      proof (cases "mid < ?r")
        case True
        with ih(4) show ?thesis by simp
      next
        case False
        with ih(1) have "?r = mid" by simp
        with lt show ?thesis by simp
      qed
      with ih m show ?thesis unfolding r by auto
    qed
  qed
qed

lemma getVisibleRange_offsets:
  assumes c: "layouts_consistent p" and n: "0 < length (flattenedData p)"
    and nn: "\<forall>j<length (flattenedData p). 0 \<le> getItemSize p (int j)"
  shows "\<exists>s e. fst (getVisibleRange p so vs ov) = (int s, int e)
     \<and> s < length (flattenedData p) \<and> e < length (flattenedData p)
     \<and> (\<forall>i<s. offset_of p (Suc i) \<le> max 0 (so - ov))
     \<and> (s < length (flattenedData p) - 1 \<longrightarrow> max 0 (so - ov) < offset_of p (Suc s))
     \<and> (\<forall>i. e < i \<and> i < length (flattenedData p) \<longrightarrow> so + vs + ov \<le> offset_of p i)
     \<and> (0 < e \<longrightarrow> offset_of p e < so + vs + ov)"
proof -
  let ?n = "length (flattenedData p)"
  let ?q = "ensureLayoutsComputed p"
  let ?lo = "max 0 (so - ov)" and ?hi = "so + vs + ov"
  let ?s = "binarySearchStart_loop ?q ?lo 0 (int ?n - 1)"
  let ?e = "binarySearchEnd_loop ?q ?hi 0 (int ?n - 1)"
  have cl: "computedLayouts ?q = layouts_of p ?n" by (rule ensure_computed(1)[OF c])
  have hz: "horizontal ?q = horizontal p" by (rule ensure_fields)
  have b: "(0::int) \<le> 0" "0 \<le> int ?n - 1" "int ?n - 1 < int ?n" using n by simp_all
  from bs_start_loop[OF cl hz nn b, of ?lo]
  have s: "0 \<le> ?s" "?s \<le> int ?n - 1"
    "\<forall>i. 0 \<le> i \<and> i < ?s \<longrightarrow> offset_of p (Suc (nat i)) \<le> ?lo"
    "?s < int ?n - 1 \<longrightarrow> ?lo < offset_of p (Suc (nat ?s))"
    by simp_all
  from bs_end_loop[OF cl hz nn b, of ?hi]
  have e: "0 \<le> ?e" "?e \<le> int ?n - 1"
    "\<forall>i. ?e < i \<and> i \<le> int ?n - 1 \<longrightarrow> ?hi \<le> offset_of p (nat i)"
    "0 < ?e \<longrightarrow> offset_of p (nat ?e) < ?hi"
    by simp_all
  have r: "fst (getVisibleRange p so vs ov) = (int (nat ?s), int (nat ?e))"
    using n s(1,2) e(1,2)
    by (simp add: getVisibleRange_def Let_def ensure_fields binarySearchStart_def binarySearchEnd_def)
  have s3: "\<forall>i<nat ?s. offset_of p (Suc i) \<le> ?lo"
  proof (intro allI impI)
    fix i assume "i < nat ?s"
    then have "0 \<le> int i \<and> int i < ?s" by simp
    with s(3) have "offset_of p (Suc (nat (int i))) \<le> ?lo" by blast
    then show "offset_of p (Suc i) \<le> ?lo" by simp
  qed
  have e3: "\<forall>i. nat ?e < i \<and> i < ?n \<longrightarrow> ?hi \<le> offset_of p i"
  proof (intro allI impI)
    fix i assume "nat ?e < i \<and> i < ?n"
    then have "?e < int i \<and> int i \<le> int ?n - 1" using e(1) by auto
    with e(3) have "?hi \<le> offset_of p (nat (int i))" by blast
    then show "?hi \<le> offset_of p i" by simp
  qed
  have s4: "nat ?s < ?n - 1 \<longrightarrow> ?lo < offset_of p (Suc (nat ?s))"
    using s(1,4) by auto
  have e4: "0 < nat ?e \<longrightarrow> offset_of p (nat ?e) < ?hi"
    using e(4) by auto
  have sn: "nat ?s < ?n" and en: "nat ?e < ?n" using s(1,2) e(1,2) n by auto
  show ?thesis
  proof (intro exI conjI)
    show "fst (getVisibleRange p so vs ov) = (int (nat ?s), int (nat ?e))" by (rule r)
    show "nat ?s < ?n" by (rule sn)
    show "nat ?e < ?n" by (rule en)
    show "\<forall>i<nat ?s. offset_of p (Suc i) \<le> ?lo" by (rule s3)
    show "nat ?s < ?n - 1 \<longrightarrow> ?lo < offset_of p (Suc (nat ?s))" by (rule s4)
    show "\<forall>i. nat ?e < i \<and> i < ?n \<longrightarrow> ?hi \<le> offset_of p i" by (rule e3)
    show "0 < nat ?e \<longrightarrow> offset_of p (nat ?e) < ?hi" by (rule e4)
  qed
qed

lemma item_start_eq:
  "layouts_consistent p \<Longrightarrow> i < length (flattenedData p) \<Longrightarrow> item_start p i = offset_of p i"
  by (simp add: item_start_def getLayoutForIndex_eq main_start_layout_of)

lemma item_end_eq:
  "layouts_consistent p \<Longrightarrow> i < length (flattenedData p) \<Longrightarrow> item_end p i = offset_of p (Suc i)"
  by (simp add: item_end_def getLayoutForIndex_eq main_start_layout_of main_size_layout_of offset_of_Suc)

lemma getVisibleRange_items:
  assumes c: "layouts_consistent p" and n: "0 < length (flattenedData p)"
    and nn: "\<forall>j<length (flattenedData p). 0 \<le> getItemSize p (int j)"
  shows "\<exists>s e. fst (getVisibleRange p so vs ov) = (int s, int e)
     \<and> s < length (flattenedData p) \<and> e < length (flattenedData p)
     \<and> (\<forall>i<s. item_end p i \<le> max 0 (so - ov))
     \<and> ((\<exists>k<length (flattenedData p). max 0 (so - ov) < item_end p k) \<longrightarrow>
          max 0 (so - ov) < item_end p s
          \<and> (\<forall>i<length (flattenedData p). item_end p i \<le> max 0 (so - ov) \<longrightarrow> i < s))
     \<and> ((\<forall>k<length (flattenedData p). item_end p k \<le> max 0 (so - ov)) \<longrightarrow>
          s = length (flattenedData p) - 1)
     \<and> (\<forall>i. e < i \<and> i < length (flattenedData p) \<longrightarrow> so + vs + ov \<le> item_start p i)
     \<and> ((\<exists>k<length (flattenedData p). item_start p k < so + vs + ov) \<longrightarrow>
          item_start p e < so + vs + ov
          \<and> (\<forall>i<length (flattenedData p). so + vs + ov \<le> item_start p i \<longrightarrow> e < i))
     \<and> ((\<forall>k<length (flattenedData p). so + vs + ov \<le> item_start p k) \<longrightarrow> e = 0)"
proof -
  let ?n = "length (flattenedData p)"
  let ?lo = "max 0 (so - ov)" and ?hi = "so + vs + ov"
  from getVisibleRange_offsets[OF assms, of so vs ov]
  obtain s e where r: "fst (getVisibleRange p so vs ov) = (int s, int e)"
    and sn: "s < ?n" and en: "e < ?n"
    and s3: "\<forall>i<s. offset_of p (Suc i) \<le> ?lo"
    and s4: "s < ?n - 1 \<longrightarrow> ?lo < offset_of p (Suc s)"
    and e3: "\<forall>i. e < i \<and> i < ?n \<longrightarrow> ?hi \<le> offset_of p i"
    and e4: "0 < e \<longrightarrow> offset_of p e < ?hi"
    by blast
  note mono = offset_of_mono[OF nn]
  have a1: "\<forall>i<s. item_end p i \<le> ?lo"
    using s3 sn by (simp add: item_end_eq[OF c])
  have a2: "?lo < item_end p s \<and> (\<forall>i<?n. item_end p i \<le> ?lo \<longrightarrow> i < s)"
    if "\<exists>k<?n. ?lo < item_end p k"
  proof -
    from that obtain k where k: "k < ?n" "?lo < offset_of p (Suc k)"
      by (auto simp: item_end_eq[OF c])
    have gt: "?lo < offset_of p (Suc s)"
    proof (cases "s < ?n - 1")
      case True
      with s4 show ?thesis by simp
    next
      case False
      with sn k have "k \<le> s" by simp
      then have "offset_of p (Suc k) \<le> offset_of p (Suc s)" using sn by (intro mono) auto
      with k show ?thesis by simp
    qed
    have "i < s" if i: "i < ?n" "offset_of p (Suc i) \<le> ?lo" for i
    proof (rule ccontr)
      assume "\<not> i < s"
      then have "offset_of p (Suc s) \<le> offset_of p (Suc i)" using i by (intro mono) auto
      with gt i show False by linarith
    qed
    with gt sn show ?thesis by (simp add: item_end_eq[OF c])
  qed
  have b1: "\<forall>i. e < i \<and> i < ?n \<longrightarrow> ?hi \<le> item_start p i"
    using e3 by (simp add: item_start_eq[OF c])
  have b2: "item_start p e < ?hi \<and> (\<forall>i<?n. ?hi \<le> item_start p i \<longrightarrow> e < i)"
    if "\<exists>k<?n. item_start p k < ?hi"
  proof -
    from that obtain k where k: "k < ?n" "offset_of p k < ?hi"
      by (auto simp: item_start_eq[OF c])
    have lt: "offset_of p e < ?hi"
    proof (cases "0 < e")
      case True
      with e4 show ?thesis by simp
    next
      case False
      then have "offset_of p e \<le> offset_of p k" using k by (intro mono) auto
      with k show ?thesis by simp
    qed
    have "e < i" if i: "i < ?n" "?hi \<le> offset_of p i" for i
    proof (rule ccontr)
      assume "\<not> e < i"
      then have "offset_of p i \<le> offset_of p e" using en by (intro mono) auto
      with lt i show False by linarith
    qed
    with lt en show ?thesis by (simp add: item_start_eq[OF c])
  qed
  have a3: "s = ?n - 1" if "\<forall>k<?n. item_end p k \<le> ?lo"
  proof (rule ccontr)
    assume "s \<noteq> ?n - 1"
    with sn have "s < ?n - 1" by simp
    with s4 have "?lo < offset_of p (Suc s)" by simp
    moreover from that sn have "offset_of p (Suc s) \<le> ?lo" by (simp add: item_end_eq[OF c])
    ultimately show False by linarith
  qed
  have b3: "e = 0" if "\<forall>k<?n. ?hi \<le> item_start p k"
  proof (rule ccontr)
    assume "e \<noteq> 0"
    with e4 have "offset_of p e < ?hi" by simp
    moreover from that en have "?hi \<le> offset_of p e" by (simp add: item_start_eq[OF c])
    ultimately show False by linarith
  qed
  show ?thesis
  proof (intro exI conjI)
    show "fst (getVisibleRange p so vs ov) = (int s, int e)" by (rule r)
    show "s < ?n" by (rule sn)
    show "e < ?n" by (rule en)
    show "\<forall>i<s. item_end p i \<le> ?lo" by (rule a1)
    show "(\<exists>k<?n. ?lo < item_end p k) \<longrightarrow>
          ?lo < item_end p s \<and> (\<forall>i<?n. item_end p i \<le> ?lo \<longrightarrow> i < s)"
      using a2 by blast
    show "(\<forall>k<?n. item_end p k \<le> ?lo) \<longrightarrow> s = ?n - 1" using a3 by blast
    show "\<forall>i. e < i \<and> i < ?n \<longrightarrow> ?hi \<le> item_start p i" by (rule b1)
    show "(\<exists>k<?n. item_start p k < ?hi) \<longrightarrow>
          item_start p e < ?hi \<and> (\<forall>i<?n. ?hi \<le> item_start p i \<longrightarrow> e < i)"
      using b2 by blast
    show "(\<forall>k<?n. ?hi \<le> item_start p k) \<longrightarrow> e = 0" using b3 by blast
  qed
qed

text \<open>
  Claim C4, as amended. For a non-empty list with non-negative sizes, \<open>getVisibleRange\<close>
  returns indices \<open>s\<close> and \<open>e\<close> of the list such that every item before \<open>s\<close> ends at
  or before the lower bound \<open>max 0 (scrollOffset - overscan)\<close> and every item after \<open>e\<close>
  starts at or after the upper bound \<open>scrollOffset + viewportSize + overscan\<close>. When
  some item ends after the lower bound, \<open>s\<close> is the first such item: every item whose end
  is at or before the lower bound (in particular one whose end equals it) is before
  \<open>s\<close>. When some item starts before the upper bound, \<open>e\<close> is the last such item:
  every item whose start is at or after the upper bound (in particular one whose start
  equals it) is after \<open>e\<close>. When no item ends after the lower bound, \<open>s\<close> is the last
  index of the list, and when no item starts before the upper bound, \<open>e\<close> is index 0.
\<close>

theorem getVisibleRange_half_open:
  assumes "reachable p" and "0 < length (flattenedData p)"
    and "\<forall>j<length (flattenedData p).
           0 \<le> resolved_size p (flattenedData p ! j) (getItemType p (int j))"
  shows "\<exists>s e. fst (getVisibleRange p so vs ov) = (int s, int e)
     \<and> s < length (flattenedData p) \<and> e < length (flattenedData p)
     \<and> (\<forall>i<s. item_end p i \<le> max 0 (so - ov))
     \<and> ((\<exists>k<length (flattenedData p). max 0 (so - ov) < item_end p k) \<longrightarrow>
          max 0 (so - ov) < item_end p s
          \<and> (\<forall>i<length (flattenedData p). item_end p i \<le> max 0 (so - ov) \<longrightarrow> i < s))
     \<and> ((\<forall>k<length (flattenedData p). item_end p k \<le> max 0 (so - ov)) \<longrightarrow>
          s = length (flattenedData p) - 1)
     \<and> (\<forall>i. e < i \<and> i < length (flattenedData p) \<longrightarrow> so + vs + ov \<le> item_start p i)
     \<and> ((\<exists>k<length (flattenedData p). item_start p k < so + vs + ov) \<longrightarrow>
          item_start p e < so + vs + ov
          \<and> (\<forall>i<length (flattenedData p). so + vs + ov \<le> item_start p i \<longrightarrow> e < i))
     \<and> ((\<forall>k<length (flattenedData p). so + vs + ov \<le> item_start p k) \<longrightarrow> e = 0)"
proof -
  from assms(3) have "\<forall>j<length (flattenedData p). 0 \<le> getItemSize p (int j)"
    by (simp add: getItemSize_resolved)
  from getVisibleRange_items[OF reachable_consistent[OF assms(1)] assms(2) this]
  show ?thesis .
qed

lemma uniform_item_start: "i < 6 \<Longrightarrow> item_start uniform_positioner i = 50 * real i"
  by (simp add: item_start_eq[OF reachable_consistent[OF uniform_reachable]] uniform_fields uniform_offsets)

lemma uniform_item_end: "i < 6 \<Longrightarrow> item_end uniform_positioner i = 50 * real i + 50"
  by (simp add: item_end_eq[OF reachable_consistent[OF uniform_reachable]] uniform_fields uniform_offsets)

lemma uniform_resolved:
  "\<forall>j<length (flattenedData uniform_positioner).
      0 \<le> resolved_size uniform_positioner (flattenedData uniform_positioner ! j)
             (getItemType uniform_positioner (int j))"
proof (intro allI impI)
  fix j assume "j < length (flattenedData uniform_positioner)"
  from getItemSize_resolved[OF this] show "0 \<le> resolved_size uniform_positioner
      (flattenedData uniform_positioner ! j) (getItemType uniform_positioner (int j))"
    by (simp add: uniform_sizes)
qed

text \<open>
  The scenario of the specification: six items of size 50, viewport 300, overscan 0,
  scroll offset 0. The range is \<open>[0, 5]\<close>.
\<close>

theorem getVisibleRange_half_open_witness:
  "fst (getVisibleRange uniform_positioner 0 300 0) = (0, 5)"
proof -
  have n: "0 < length (flattenedData uniform_positioner)" by (simp add: uniform_fields)
  from getVisibleRange_half_open[OF uniform_reachable n uniform_resolved, where so=0 and vs=300 and ov=0]
  obtain s e where r: "fst (getVisibleRange uniform_positioner 0 300 0) = (int s, int e)"
    and sn: "s < 6" and en: "e < 6"
    and s3: "\<forall>i<s. item_end uniform_positioner i \<le> 0"
    and e3: "\<forall>i. e < i \<and> i < 6 \<longrightarrow> 300 \<le> item_start uniform_positioner i"
    by (auto simp: uniform_fields)
  have "s = 0"
  proof (rule ccontr)
    assume "s \<noteq> 0"
    with s3 have "item_end uniform_positioner 0 \<le> 0" by simp
    then show False by (simp add: uniform_item_end)
  qed
  moreover have "e = 5"
  proof (rule ccontr)
    assume "e \<noteq> 5"
    with en e3 have "300 \<le> item_start uniform_positioner 5" by simp
    then show False by (simp add: uniform_item_start)
  qed
  ultimately show ?thesis using r by simp
qed

text \<open>
  The claim C4 as stated fails at the two ends of the list. With a viewport of extent 0
  at scroll offset 0 the upper bound is 0, item 0 starts at 0, and the range is
  \<open>[0, 0]\<close>: item 0 is included. At scroll offset 300 with viewport 300 the lower bound
  is 300, the last item (index 5) ends at 300, and the range is \<open>[5, 5]\<close>: the item is
  included.
\<close>

theorem getVisibleRange_boundary_counterexample:
  "fst (getVisibleRange uniform_positioner 0 0 0) = (0, 0)
   \<and> item_start uniform_positioner 0 = 0 + 0 + 0
   \<and> fst (getVisibleRange uniform_positioner 300 300 0) = (5, 5)
   \<and> item_end uniform_positioner 5 = 300 - 0"
proof -
  note c = reachable_consistent[OF uniform_reachable]
  have n: "0 < length (flattenedData uniform_positioner)" by (simp add: uniform_fields)
  have nn: "\<forall>j<length (flattenedData uniform_positioner). 0 \<le> getItemSize uniform_positioner (int j)"
    by (simp add: uniform_sizes)
  from getVisibleRange_offsets[OF c n nn, where so=0 and vs=0 and ov=0]
  obtain s e where r: "fst (getVisibleRange uniform_positioner 0 0 0) = (int s, int e)"
    and s3: "\<forall>i<s. offset_of uniform_positioner (Suc i) \<le> 0"
    and e4: "0 < e \<longrightarrow> offset_of uniform_positioner e < 0"
    by auto
  have "s = 0"
  proof (rule ccontr)
    assume "s \<noteq> 0"
    with s3 have "offset_of uniform_positioner (Suc 0) \<le> 0" by simp
    then show False by (simp add: uniform_offsets)
  qed
  moreover have "e = 0" using e4 by (simp add: uniform_offsets)
  ultimately have a: "fst (getVisibleRange uniform_positioner 0 0 0) = (0, 0)" using r by simp
  from getVisibleRange_offsets[OF c n nn, where so=300 and vs=300 and ov=0]
  obtain s' e' where r': "fst (getVisibleRange uniform_positioner 300 300 0) = (int s', int e')"
    and sn: "s' < 6" and en: "e' < 6"
    and s4: "s' < 5 \<longrightarrow> 300 < offset_of uniform_positioner (Suc s')"
    and e3: "\<forall>i. e' < i \<and> i < 6 \<longrightarrow> 600 \<le> offset_of uniform_positioner i"
    by (auto simp: uniform_fields)
  have "s' = 5" using s4 sn by (simp add: uniform_offsets)
  moreover have "e' = 5"
  proof (rule ccontr)
    assume "e' \<noteq> 5"
    with en e3 have "600 \<le> offset_of uniform_positioner 5" by simp
    then show False by (simp add: uniform_offsets)
  qed
  ultimately have b: "fst (getVisibleRange uniform_positioner 300 300 0) = (5, 5)" using r' by simp
  from a b show ?thesis by (simp add: uniform_item_start uniform_item_end)
qed

subsection \<open>The measurement cache\<close>

lemma cache_invalidateFrom_typeStats:
  "typeStats (cache_invalidateFrom c fi m) = typeStats c"
proof -
  have "typeStats (fold (\<lambda>(k, index) c'. if index \<ge> fi then cache_delete c' k else c') m c) = typeStats c"
    by (induction m arbitrary: c) (auto simp: cache_delete_def)
  then show ?thesis by (simp add: cache_invalidateFrom_def)
qed

lemma typeStats_run:
  "typeStats (cache_run calls) ty =
     (if recorded_since_clear ty calls = [] then None
      else Some \<lparr>totalSize = sum_list (recorded_since_clear ty calls),
                 count = length (recorded_since_clear ty calls)\<rparr>)"
proof (induction calls rule: rev_induct)
  case Nil
  show ?case by (simp add: cache_run_def recorded_since_clear_def createLayoutCache_def)
next
  case (snoc call calls)
  have r: "cache_run (calls @ [call]) = cache_step (cache_run calls) call"
    and s: "recorded_since_clear ty (calls @ [call]) = recorded_step ty (recorded_since_clear ty calls) call"
    by (simp_all add: cache_run_def recorded_since_clear_def)
  show ?case unfolding r s using snoc
    by (cases call)
      (auto simp: cache_set_def cache_delete_def cache_clear_def cache_invalidateFrom_typeStats
        recordMeasurement_def Let_def)
qed

text \<open>
  Claim C8. After any sequence of calls on a fresh cache, \<open>getAverageSize\<close> of a type
  is the sum of the sizes recorded for that type since the last \<open>clear\<close> divided by their
  number, and is undefined (\<open>None\<close>) when no size was recorded for the type since the
  last \<open>clear\<close>. The other operations of the cache leave the averages as they are.
\<close>

theorem getAverageSize_mean:
  "getAverageSize (cache_run calls) ty =
     (if recorded_since_clear ty calls = [] then None
      else Some (sum_list (recorded_since_clear ty calls)
                 / real (length (recorded_since_clear ty calls))))"
  by (simp add: getAverageSize_def typeStats_run)

text \<open>
  Sizes 40 and 80 recorded for a type after a clear (and 10 before it): the average is
  60. No size recorded for the type after the clear: no average.
\<close>

theorem getAverageSize_mean_witness:
  "getAverageSize (cache_run [RecordMeasurement ''a'' 10, CacheClear, RecordMeasurement ''a'' 40,
      RecordMeasurement ''b'' 7, RecordMeasurement ''a'' 80]) ''a'' = Some 60
   \<and> getAverageSize (cache_run [RecordMeasurement ''a'' 10, CacheClear, RecordMeasurement ''b'' 7]) ''a''
       = None"
  using getAverageSize_mean[of "[RecordMeasurement ''a'' 10, CacheClear, RecordMeasurement ''a'' 40,
      RecordMeasurement ''b'' 7, RecordMeasurement ''a'' 80]" "''a''"]
    getAverageSize_mean[of "[RecordMeasurement ''a'' 10, CacheClear, RecordMeasurement ''b'' 7]" "''a''"]
  by (simp add: recorded_since_clear_def)

subsection \<open>The cell recycler\<close>

lemma digit_char_cases:
  "d < 10 \<Longrightarrow> d = 0 \<or> d = 1 \<or> d = 2 \<or> d = 3 \<or> d = 4 \<or> d = 5 \<or> d = 6 \<or> d = 7 \<or> d = 8 \<or> d = (9::nat)"
  by arith

lemma digit_char_not_dash: "d < 10 \<Longrightarrow> digit_char d \<noteq> CHR ''-''"
  using digit_char_cases[of d] by (auto simp: digit_char_def)

lemma digit_char_inj: "d < 10 \<Longrightarrow> e < 10 \<Longrightarrow> digit_char d = digit_char e \<Longrightarrow> d = e"
  using digit_char_cases[of d] digit_char_cases[of e] by (auto simp: digit_char_def)

lemma decimal_no_dash: "CHR ''-'' \<notin> set (decimal n)"
proof (induction n rule: less_induct)
  case (less n)
  have d: "digit_char (n mod 10) \<noteq> CHR ''-''" by (rule digit_char_not_dash) simp
  show ?case
  proof (cases "10 \<le> n")
    case True
    then have "n div 10 < n" by simp
    from less[OF this] d True show ?thesis by (subst decimal.simps) auto
  next
    case False
    with d show ?thesis by (subst decimal.simps) auto
  qed
qed

lemma decimal_inj: "decimal n = decimal m \<Longrightarrow> n = m"
proof (induction n arbitrary: m rule: less_induct)
  case (less n)
  let ?pn = "if 10 \<le> n then decimal (n div 10) else []"
  let ?pm = "if 10 \<le> m then decimal (m div 10) else []"
  have ne: "decimal k \<noteq> []" for k by (subst decimal.simps) simp
  from less.prems have "?pn @ [digit_char (n mod 10)] = ?pm @ [digit_char (m mod 10)]"
    by (subst (asm) decimal.simps[of n], subst (asm) decimal.simps[of m])
  then have p: "?pn = ?pm" and "digit_char (n mod 10) = digit_char (m mod 10)" by simp_all
  then have l: "n mod 10 = m mod 10" by (intro digit_char_inj) simp_all
  show ?case
  proof (cases "10 \<le> n")
    case True
    with p ne[of "n div 10"] have m: "10 \<le> m" by (auto split: if_splits)
    with p True have "decimal (n div 10) = decimal (m div 10)" by simp
    moreover have "n div 10 < n" using True by simp
    ultimately have "n div 10 = m div 10" by (rule less.IH[rotated])
    with l show ?thesis by (metis div_mult_mod_eq)
  next
    case False
    with p ne[of "m div 10"] have "\<not> 10 \<le> m" by (auto split: if_splits)
    with False l show ?thesis by simp
  qed
qed

lemma cell_key_inj:
  assumes "ty @ ''-'' @ decimal n = ty' @ ''-'' @ decimal m"
  shows "n = m"
proof -
  have t: "takeWhile (\<lambda>c. c \<noteq> CHR ''-'') (rev (s @ ''-'' @ decimal k)) = rev (decimal k)" for s k
  proof -
    have "takeWhile (\<lambda>c. c \<noteq> CHR ''-'') (rev (decimal k) @ CHR ''-'' # rev s)
        = rev (decimal k) @ takeWhile (\<lambda>c. c \<noteq> CHR ''-'') (CHR ''-'' # rev s)"
      by (rule takeWhile_append2) (use decimal_no_dash[of k] in auto)
    then show ?thesis by simp
  qed
  from assms have "rev (ty @ ''-'' @ decimal n) = rev (ty' @ ''-'' @ decimal m)" by simp
  then have "takeWhile (\<lambda>c. c \<noteq> CHR ''-'') (rev (ty @ ''-'' @ decimal n))
      = takeWhile (\<lambda>c. c \<noteq> CHR ''-'') (rev (ty' @ ''-'' @ decimal m))" by simp
  then have "decimal n = decimal m" unfolding t by simp
  then show ?thesis by (rule decimal_inj)
qed

lemma recycler_invD:
  assumes "recycler_inv (r, out)"
  shows "pools r ty = Some pool \<Longrightarrow> distinct (map ckey (cells pool))"
    and "ty \<noteq> ty' \<Longrightarrow> pool_keys r ty \<inter> pool_keys r ty' = {}"
    and "distinct (map ckey out)"
    and "pool_keys r ty \<inter> ckey ` set out = {}"
    and "k \<in> pool_keys r ty \<Longrightarrow> issued (cellCounter r) k"
    and "c \<in> set out \<Longrightarrow> issued (cellCounter r) (ckey c)"
  using assms unfolding recycler_inv_def by auto

lemma pool_keys_eq:
  assumes "pools r' = (pools r)(ty \<mapsto> pool)"
  shows "pool_keys r' ty' = (if ty' = ty then ckey ` set (cells pool) else pool_keys r ty')"
  by (simp add: pool_keys_def assms)

lemma inv_move:
  assumes inv: "recycler_inv (r, out)"
    and P: "pools r' = (pools r)(ty \<mapsto> pool')"
    and C: "cellCounter r' = cellCounter r"
    and D: "distinct (map ckey (cells pool'))"
    and S: "ckey ` set (cells pool') \<union> ckey ` set out' \<subseteq> pool_keys r ty \<union> ckey ` set out"
    and Dj: "ckey ` set (cells pool') \<inter> ckey ` set out' = {}"
    and Do: "distinct (map ckey out')"
  shows "recycler_inv (r', out')"
proof -
  note i = recycler_invD[OF inv]
  define N where "N = ckey ` set (cells pool')"
  define O' where "O' = ckey ` set out'"
  define A where "A = pool_keys r ty \<union> ckey ` set out"
  have kty: "pool_keys r' ty = N" by (simp add: pool_keys_eq[OF P] N_def)
  have kot: "pool_keys r' t = pool_keys r t" if "t \<noteq> ty" for t
    using that by (simp add: pool_keys_eq[OF P])
  have S': "N \<subseteq> A" "O' \<subseteq> A" using S by (auto simp: N_def O'_def A_def)
  have Dj': "N \<inter> O' = {}" using Dj by (simp add: N_def O'_def)
  have other: "pool_keys r t \<inter> A = {}" if "t \<noteq> ty" for t
    using i(2)[OF that] i(4)[of t] unfolding A_def by blast
  have iss: "issued (cellCounter r) k" if "k \<in> A" for k
  proof -
    from that have "k \<in> pool_keys r ty \<or> k \<in> ckey ` set out" by (simp add: A_def)
    then show ?thesis
    proof
      assume "k \<in> pool_keys r ty" then show ?thesis by (rule i(5))
    next
      assume "k \<in> ckey ` set out"
      then obtain c where "c \<in> set out" "k = ckey c" by blast
      with i(6) show ?thesis by simp
    qed
  qed
  have 1: "\<forall>t pool. pools r' t = Some pool \<longrightarrow> distinct (map ckey (cells pool))"
  proof (intro allI impI)
    fix t pool assume p: "pools r' t = Some pool"
    show "distinct (map ckey (cells pool))"
    proof (cases "t = ty")
      case True
      with p P have "pool = pool'" by simp
      with D show ?thesis by simp
    next
      case False
      with p P have "pools r t = Some pool" by simp
      with i(1) show ?thesis by blast
    qed
  qed
  have 2: "\<forall>t t'. t \<noteq> t' \<longrightarrow> pool_keys r' t \<inter> pool_keys r' t' = {}"
  proof (intro allI impI)
    fix t t' :: string assume ne: "t \<noteq> t'"
    show "pool_keys r' t \<inter> pool_keys r' t' = {}"
    proof (cases "t = ty")
      case True
      with ne have n': "t' \<noteq> ty" by simp
      from other[OF n'] S'(1) have "N \<inter> pool_keys r t' = {}" by blast
      then show ?thesis by (simp add: True kty kot[OF n'])
    next
      case False
      show ?thesis
      proof (cases "t' = ty")
        case True
        from other[OF False] S'(1) have "pool_keys r t \<inter> N = {}" by blast
        then show ?thesis by (simp add: True kty kot[OF False])
      next
        case f: False
        from i(2)[OF ne] show ?thesis by (simp add: kot[OF False] kot[OF f])
      qed
    qed
  qed
  have 4: "\<forall>t. pool_keys r' t \<inter> ckey ` set out' = {}"
  proof
    fix t show "pool_keys r' t \<inter> ckey ` set out' = {}"
    proof (cases "t = ty")
      case True
      with Dj' show ?thesis by (simp add: kty O'_def)
    next
      case False
      from other[OF False] S'(2) have "pool_keys r t \<inter> O' = {}" by blast
      then show ?thesis by (simp add: kot[OF False] O'_def)
    qed
  qed
  have 5: "\<forall>t. \<forall>x \<in> pool_keys r' t. issued (cellCounter r') x"
  proof (intro allI ballI)
    fix t x assume x: "x \<in> pool_keys r' t"
    show "issued (cellCounter r') x"
    proof (cases "t = ty")
      case True
      with x S'(1) have "x \<in> A" by (auto simp: kty)
      then show ?thesis unfolding C by (rule iss)
    next
      case False
      with x have "x \<in> pool_keys r t" by (simp add: kot)
      then show ?thesis unfolding C by (rule i(5))
    qed
  qed
  have 6: "\<forall>c \<in> set out'. issued (cellCounter r') (ckey c)"
  proof
    fix c assume "c \<in> set out'"
    then have "ckey c \<in> O'" by (simp add: O'_def)
    with S'(2) have "ckey c \<in> A" by blast
    then show "issued (cellCounter r') (ckey c)" unfolding C by (rule iss)
  qed
  from 1 2 Do 4 5 6 show ?thesis unfolding recycler_inv_def by simp
qed

lemma acquireCell_empty:
  assumes "pools r ty = None \<or> (\<exists>pool. pools r ty = Some pool \<and> cells pool = [])"
  shows "acquireCell r ty fi = (None, r)"
  using assms by (auto simp: acquireCell_def)

lemma acquireCell_pop:
  assumes "pools r ty = Some pool" "cells pool \<noteq> []"
  shows "fst (acquireCell r ty fi) = Some ((last (cells pool))\<lparr>cell_flatIndex := fi\<rparr>)"
    and "pools (snd (acquireCell r ty fi)) = (pools r)(ty \<mapsto> pool\<lparr>cells := butlast (cells pool)\<rparr>)"
    and "cellCounter (snd (acquireCell r ty fi)) = cellCounter r"
    and "defaultMaxPoolSize (snd (acquireCell r ty fi)) = defaultMaxPoolSize r"
  using assms by (simp_all add: acquireCell_def Let_def)

lemma distinct_butlast_keys:
  assumes "distinct (map ckey cs)" "cs \<noteq> []"
  shows "ckey ` set (butlast cs) = ckey ` set cs - {ckey (last cs)}"
proof -
  from assms(2) have e: "cs = butlast cs @ [last cs]" by simp
  have "map ckey cs = map ckey (butlast cs) @ [ckey (last cs)]" by (subst e) simp
  with assms(1) have "distinct (map ckey (butlast cs) @ [ckey (last cs)])" by simp
  then have "ckey (last cs) \<notin> ckey ` set (butlast cs)" by auto
  moreover have "set cs = set (butlast cs) \<union> {last cs}" by (subst e) simp
  ultimately show ?thesis by auto
qed

lemma acquired_in_pool:
  assumes "fst (acquireCell r ty fi) = Some c"
  shows "ckey c \<in> pool_keys r ty"
proof -
  from assms obtain pool where p: "pools r ty = Some pool" "cells pool \<noteq> []"
    by (cases "pools r ty") (auto simp: acquireCell_def split: if_splits)
  from acquireCell_pop(1)[OF p, of fi] assms have "ckey c = ckey (last (cells pool))" by auto
  with p show ?thesis by (simp add: pool_keys_def)
qed

lemma acquire_step:
  "recycler_step (r, out) (AcquireCell ty fi) =
     Some (snd (acquireCell r ty fi),
           (case fst (acquireCell r ty fi) of None \<Rightarrow> out | Some c \<Rightarrow> c # out))"
  by (cases "acquireCell r ty fi") (auto split: option.splits)

lemma inv_acquire:
  assumes "recycler_inv (r, out)"
  shows "recycler_inv (snd (acquireCell r ty fi),
           (case fst (acquireCell r ty fi) of None \<Rightarrow> out | Some c \<Rightarrow> c # out))"
proof (cases "pools r ty = None \<or> (\<exists>pool. pools r ty = Some pool \<and> cells pool = [])")
  case True
  with assms show ?thesis by (simp add: acquireCell_empty)
next
  case False
  then obtain pool where p: "pools r ty = Some pool" "cells pool \<noteq> []" by auto
  let ?c = "(last (cells pool))\<lparr>cell_flatIndex := fi\<rparr>"
  let ?r = "snd (acquireCell r ty fi)"
  note a = acquireCell_pop[OF p, of fi]
  note i = recycler_invD[OF assms]
  have pk: "pool_keys r ty = ckey ` set (cells pool)" using p by (simp add: pool_keys_def)
  note bk = distinct_butlast_keys[OF i(1)[OF p(1)] p(2)]
  have cin: "ckey ?c \<in> pool_keys r ty" using p(2) pk by simp
  have "recycler_inv (?r, ?c # out)"
  proof (rule inv_move[OF assms a(2) a(3)])
    show "distinct (map ckey (cells (pool\<lparr>cells := butlast (cells pool)\<rparr>)))"
      using distinct_butlast[OF i(1)[OF p(1)]] by (simp add: map_butlast)
    have "(ckey ` set (cells pool) - {ckey (last (cells pool))})
        \<union> insert (ckey (last (cells pool))) (ckey ` set out) \<subseteq> pool_keys r ty \<union> ckey ` set out"
      using cin unfolding pk by auto
    then show "ckey ` set (cells (pool\<lparr>cells := butlast (cells pool)\<rparr>)) \<union> ckey ` set (?c # out)
        \<subseteq> pool_keys r ty \<union> ckey ` set out"
      by (simp add: bk)
    have "(ckey ` set (cells pool) - {ckey (last (cells pool))})
        \<inter> insert (ckey (last (cells pool))) (ckey ` set out) = {}"
      using i(4)[of ty] unfolding pk by blast
    then show "ckey ` set (cells (pool\<lparr>cells := butlast (cells pool)\<rparr>)) \<inter> ckey ` set (?c # out) = {}"
      by (simp add: bk)
    show "distinct (map ckey (?c # out))"
      using i(3) i(4)[of ty] cin by auto
  qed
  then show ?thesis by (simp add: a(1))
qed

lemma remove1_keys:
  assumes "distinct (map ckey out)" "c \<in> set out"
  shows "distinct (map ckey (remove1 c out))"
    and "ckey c \<notin> ckey ` set (remove1 c out)"
    and "ckey ` set (remove1 c out) \<subseteq> ckey ` set out"
  using assms by (induction out) (auto simp: image_iff)

lemma releaseCell_pools:
  "pools (releaseCell r c) = (pools r)(itemType c \<mapsto>
      (let pool = (case pools r (itemType c) of
                     None \<Rightarrow> \<lparr>pool_type = itemType c, cells = [], maxSize = defaultMaxPoolSize r\<rparr>
                   | Some pl \<Rightarrow> pl)
       in if real (length (cells pool)) < maxSize pool then pool\<lparr>cells := cells pool @ [c]\<rparr> else pool))"
  by (simp add: releaseCell_def Let_def)

lemma releaseCell_counter:
  "cellCounter (releaseCell r c) = cellCounter r"
  "defaultMaxPoolSize (releaseCell r c) = defaultMaxPoolSize r"
  by (simp_all add: releaseCell_def Let_def)

lemma inv_release:
  assumes inv: "recycler_inv (r, out)" and c: "c \<in> set out"
  shows "recycler_inv (releaseCell r c, remove1 c out)"
proof -
  note i = recycler_invD[OF inv]
  note rm = remove1_keys[OF i(3) c]
  define pool where "pool = (case pools r (itemType c) of
       None \<Rightarrow> \<lparr>pool_type = itemType c, cells = [], maxSize = defaultMaxPoolSize r\<rparr>
     | Some pl \<Rightarrow> pl)"
  define pool' where "pool' = (if real (length (cells pool)) < maxSize pool
       then pool\<lparr>cells := cells pool @ [c]\<rparr> else pool)"
  have P: "pools (releaseCell r c) = (pools r)(itemType c \<mapsto> pool')"
    unfolding pool'_def pool_def by (simp add: releaseCell_pools Let_def)
  have pk: "pool_keys r (itemType c) = ckey ` set (cells pool)"
    by (simp add: pool_keys_def pool_def split: option.splits)
  have old: "distinct (map ckey (cells pool))"
    using i(1)[of "itemType c"] by (auto simp: pool_def split: option.splits)
  have notin: "ckey c \<notin> ckey ` set (cells pool)"
    using i(4)[of "itemType c"] c pk by auto
  show ?thesis
  proof (rule inv_move[OF inv P releaseCell_counter(1)])
    show "distinct (map ckey (cells pool'))" using old notin by (simp add: pool'_def)
    show "ckey ` set (cells pool') \<union> ckey ` set (remove1 c out)
        \<subseteq> pool_keys r (itemType c) \<union> ckey ` set out"
      using rm(3) c pk by (auto simp: pool'_def)
    show "ckey ` set (cells pool') \<inter> ckey ` set (remove1 c out) = {}"
      using rm(2,3) i(4)[of "itemType c"] pk by (auto simp: pool'_def)
    show "distinct (map ckey (remove1 c out))" by (rule rm(1))
  qed
qed

text \<open>
  The trimming loop ends exactly when the maximum is not negative, and then it keeps the
  first cells of the pool, as many as the whole part of the maximum.
\<close>

lemma trim_pool_take:
  assumes "0 \<le> n"
  shows "trim_pool cs n = Some (take (nat \<lfloor>n\<rfloor>) cs)"
proof (induction "length cs" arbitrary: cs rule: less_induct)
  case less
  show ?case
  proof (cases "real (length cs) > n")
    case True
    with assms have ne: "cs \<noteq> []" by auto
    then have "length (butlast cs) < length cs" by simp
    from less[OF this] have ih: "trim_pool (butlast cs) n = Some (take (nat \<lfloor>n\<rfloor>) (butlast cs))" .
    from True assms have "nat \<lfloor>n\<rfloor> < length cs"
      by (metis floor_less_iff nat_less_iff of_int_of_nat_eq zero_le_floor)
    then have "take (nat \<lfloor>n\<rfloor>) (butlast cs) = take (nat \<lfloor>n\<rfloor>) cs" by (simp add: take_butlast)
    with True ih show ?thesis by (subst trim_pool.simps) simp
  next
    case False
    then have "real (length cs) \<le> n" by simp
    then have "int (length cs) \<le> \<lfloor>n\<rfloor>" by (simp add: le_floor_iff)
    then have "length cs \<le> nat \<lfloor>n\<rfloor>" by simp
    with False show ?thesis by (subst trim_pool.simps) simp
  qed
qed

lemma trim_pool_returns:
  assumes "trim_pool cs n = Some cs'"
  shows "0 \<le> n"
proof (rule trim_pool.raw_induct[where P = "\<lambda>cs n y. 0 \<le> n", OF _ assms])
  fix f :: "RecycledCell list \<Rightarrow> real \<Rightarrow> RecycledCell list option" and cs n csa
  assume ih: "\<And>cs n y. f cs n = Some y \<Longrightarrow> 0 \<le> n"
    and st: "(if n < real (length cs) then f (butlast cs) n else Some cs) = Some csa"
  show "0 \<le> n"
  proof (cases "n < real (length cs)")
    case True
    with st have "f (butlast cs) n = Some csa" by simp
    then show ?thesis by (rule ih)
  next
    case False
    then have "real (length cs) \<le> n" by simp
    moreover have "0 \<le> real (length cs)" by simp
    ultimately show ?thesis by linarith
  qed
qed

lemma trim_pool_negative: "n < 0 \<Longrightarrow> trim_pool cs n = None"
  using trim_pool_returns[of cs n] by (cases "trim_pool cs n") auto

lemma setMaxPoolSize_Some:
  assumes "setMaxPoolSize r ty n = Some r'"
  shows "pools r' = (pools r)(ty \<mapsto>
           (case pools r ty of
              None \<Rightarrow> \<lparr>pool_type = ty, cells = [], maxSize = n\<rparr>
            | Some pool \<Rightarrow> pool\<lparr>maxSize := n, cells := take (nat \<lfloor>n\<rfloor>) (cells pool)\<rparr>))"
    and "cellCounter r' = cellCounter r"
    and "defaultMaxPoolSize r' = defaultMaxPoolSize r"
proof -
  have t: "cs = take (nat \<lfloor>n\<rfloor>) (cells pool)" if "trim_pool (cells pool) n = Some cs"
    for pool :: RecyclePool and cs
    using trim_pool_take[OF trim_pool_returns[OF that]] that by simp
  from assms show "pools r' = (pools r)(ty \<mapsto>
           (case pools r ty of
              None \<Rightarrow> \<lparr>pool_type = ty, cells = [], maxSize = n\<rparr>
            | Some pool \<Rightarrow> pool\<lparr>maxSize := n, cells := take (nat \<lfloor>n\<rfloor>) (cells pool)\<rparr>))"
    by (auto simp: setMaxPoolSize_def split: option.splits dest: t)
  from assms show "cellCounter r' = cellCounter r" "defaultMaxPoolSize r' = defaultMaxPoolSize r"
    by (auto simp: setMaxPoolSize_def split: option.splits)
qed

lemma setMaxPoolSize_returns:
  assumes "0 \<le> n"
  shows "\<exists>r'. setMaxPoolSize r ty n = Some r'"
  by (simp add: setMaxPoolSize_def trim_pool_take[OF assms] split: option.splits)

lemma inv_setMaxPoolSize:
  assumes inv: "recycler_inv (r, out)" and s: "setMaxPoolSize r ty n = Some r'"
  shows "recycler_inv (r', out)"
proof -
  note i = recycler_invD[OF inv]
  define pool' where "pool' = (case pools r ty of
       None \<Rightarrow> \<lparr>pool_type = ty, cells = [], maxSize = n\<rparr>
     | Some pool \<Rightarrow> pool\<lparr>maxSize := n, cells := take (nat \<lfloor>n\<rfloor>) (cells pool)\<rparr>)"
  have P: "pools r' = (pools r)(ty \<mapsto> pool')"
    and C: "cellCounter r' = cellCounter r"
    using setMaxPoolSize_Some[OF s] by (simp_all add: pool'_def)
  have sub: "set (cells pool') \<subseteq> (case pools r ty of None \<Rightarrow> {} | Some pool \<Rightarrow> set (cells pool))"
    by (auto simp: pool'_def split: option.splits dest: in_set_takeD)
  show ?thesis
  proof (rule inv_move[OF inv P C])
    show "distinct (map ckey (cells pool'))"
      using i(1)[of ty] by (auto simp: pool'_def take_map[symmetric] split: option.splits)
    show "ckey ` set (cells pool') \<union> ckey ` set out \<subseteq> pool_keys r ty \<union> ckey ` set out"
      using sub by (auto simp: pool_keys_def split: option.splits)
    show "ckey ` set (cells pool') \<inter> ckey ` set out = {}"
      using sub i(4)[of ty] by (auto simp: pool_keys_def split: option.splits)
    show "distinct (map ckey out)" by (rule i(3))
  qed
qed

lemma issued_mono:
  assumes "issued n k" "n \<le> m"
  shows "issued m k"
proof -
  from assms(1) obtain ty j where "j \<le> n" "k = ty @ ''-'' @ decimal j"
    unfolding issued_def by blast
  with assms(2) have "j \<le> m \<and> k = ty @ ''-'' @ decimal j" by simp
  then show ?thesis unfolding issued_def by blast
qed

lemma fresh_key:
  assumes "issued n k"
  shows "k \<noteq> ty @ ''-'' @ decimal (Suc n)"
proof
  assume e: "k = ty @ ''-'' @ decimal (Suc n)"
  from assms obtain ty' j where j: "j \<le> n" "k = ty' @ ''-'' @ decimal j"
    unfolding issued_def by blast
  from e j(2) have "ty' @ ''-'' @ decimal j = ty @ ''-'' @ decimal (Suc n)" by simp
  then have "j = Suc n" by (rule cell_key_inj)
  with j(1) show False by simp
qed

lemma createCell_fields:
  "ckey (fst (createCell r ty fi)) = ty @ ''-'' @ decimal (Suc (cellCounter r))"
  "pools (snd (createCell r ty fi)) = pools r"
  "cellCounter (snd (createCell r ty fi)) = Suc (cellCounter r)"
  "defaultMaxPoolSize (snd (createCell r ty fi)) = defaultMaxPoolSize r"
  by (simp_all add: createCell_def generateCellKey_def Let_def)

lemma created_fresh:
  assumes inv: "recycler_inv (r, out)"
  shows "ckey (fst (createCell r ty fi)) \<notin> ckey ` set out"
    and "ckey (fst (createCell r ty fi)) \<notin> pool_keys r t"
proof -
  note i = recycler_invD[OF inv]
  show "ckey (fst (createCell r ty fi)) \<notin> ckey ` set out"
  proof
    assume "ckey (fst (createCell r ty fi)) \<in> ckey ` set out"
    then obtain c where c: "c \<in> set out" "ckey c = ty @ ''-'' @ decimal (Suc (cellCounter r))"
      unfolding createCell_fields by auto
    from fresh_key[OF i(6)[OF c(1)], of ty] c(2) show False by simp
  qed
  show "ckey (fst (createCell r ty fi)) \<notin> pool_keys r t"
  proof
    assume "ckey (fst (createCell r ty fi)) \<in> pool_keys r t"
    from fresh_key[OF i(5)[OF this], of ty] show False unfolding createCell_fields by simp
  qed
qed

lemma inv_create:
  assumes inv: "recycler_inv (r, out)"
  shows "recycler_inv (snd (createCell r ty fi), fst (createCell r ty fi) # out)"
proof -
  note i = recycler_invD[OF inv]
  note f = created_fresh[OF inv, of ty fi]
  have pk: "pool_keys (snd (createCell r ty fi)) = pool_keys r"
    by (rule ext) (simp add: pool_keys_def createCell_fields)
  have n: "issued (Suc (cellCounter r)) (ckey (fst (createCell r ty fi)))"
    unfolding createCell_fields issued_def by blast
  have up: "issued (cellCounter r) k \<Longrightarrow> issued (Suc (cellCounter r)) k" for k
    using issued_mono[of "cellCounter r" k "Suc (cellCounter r)"] by simp
  have 1: "\<forall>t pool. pools (snd (createCell r ty fi)) t = Some pool \<longrightarrow>
      distinct (map ckey (cells pool))"
    using i(1) by (simp add: createCell_fields)
  have 3: "distinct (map ckey (fst (createCell r ty fi) # out))"
    using i(3) f(1) by simp
  have 4: "\<forall>t. pool_keys r t \<inter> ckey ` set (fst (createCell r ty fi) # out) = {}"
    using i(4) f(2) by auto
  have 5: "\<forall>t. \<forall>k \<in> pool_keys r t. issued (Suc (cellCounter r)) k"
    using i(5) up by blast
  have 6: "\<forall>c \<in> set (fst (createCell r ty fi) # out). issued (Suc (cellCounter r)) (ckey c)"
    using i(6) up n by auto
  from 1 i(2) 3 4 5 6 show ?thesis
    unfolding recycler_inv_def by (simp add: pk createCell_fields(3))
qed

lemma getCell_cases:
  "(fst (acquireCell r ty fi) = None \<and> getCell r ty fi = createCell r ty fi)
   \<or> (\<exists>c. fst (acquireCell r ty fi) = Some c \<and> getCell r ty fi = (c, snd (acquireCell r ty fi)))"
proof (cases "fst (acquireCell r ty fi)")
  case None
  then have "acquireCell r ty fi = (None, r)"
    by (auto simp: acquireCell_def Let_def split: option.splits if_splits)
  with None show ?thesis by (simp add: getCell_def)
next
  case (Some c)
  then show ?thesis by (cases "acquireCell r ty fi") (simp add: getCell_def)
qed

lemma inv_get:
  assumes "recycler_inv (r, out)"
  shows "recycler_inv (snd (getCell r ty fi), fst (getCell r ty fi) # out)"
  using getCell_cases[of r ty fi]
proof (elim disjE conjE exE)
  assume "getCell r ty fi = createCell r ty fi"
  with inv_create[OF assms, of ty fi] show ?thesis by simp
next
  fix c assume "fst (acquireCell r ty fi) = Some c" "getCell r ty fi = (c, snd (acquireCell r ty fi))"
  with inv_acquire[OF assms, of ty fi] show ?thesis by simp
qed

lemma inv_init: "recycler_inv (createCellRecycler dflt, [])"
  by (simp add: recycler_inv_def createCellRecycler_def pool_keys_def)

lemma inv_step:
  assumes "recycler_inv s" "gives_back (snd s) call" "recycler_step s call = Some s'"
  shows "recycler_inv s'"
proof -
  obtain r out where s: "s = (r, out)" by (cases s)
  show ?thesis
  proof (cases call)
    case (AcquireCell ty fi)
    from assms(3) have "s' = (snd (acquireCell r ty fi),
           (case fst (acquireCell r ty fi) of None \<Rightarrow> out | Some c \<Rightarrow> c # out))"
      by (simp add: s AcquireCell acquire_step del: recycler_step.simps)
    with assms(1) show ?thesis using inv_acquire[of r out ty fi] by (simp add: s)
  next
    case (GetCell ty fi)
    with assms show ?thesis using inv_get[of r out ty fi] by (auto simp: s)
  next
    case (ReleaseCell c)
    with assms show ?thesis using inv_release[of r out c] by (auto simp: s)
  next
    case (SetMaxPoolSize ty n)
    with assms show ?thesis using inv_setMaxPoolSize[of r out ty n]
      by (auto simp: s split: option.splits)
  qed
qed

lemma inv_run:
  "recycler_inv s \<Longrightarrow> well_paired s calls \<Longrightarrow> recycler_steps s calls = Some s' \<Longrightarrow> recycler_inv s'"
proof (induction calls arbitrary: s)
  case Nil
  then show ?case by simp
next
  case (Cons call calls)
  from Cons.prems(3) obtain s1 where s1: "recycler_step s call = Some s1"
    and r: "recycler_steps s1 calls = Some s'"
    by (auto split: option.splits)
  from Cons.prems(2) s1 have g: "gives_back (snd s) call" and w: "well_paired s1 calls" by simp_all
  from inv_step[OF Cons.prems(1) g s1] have "recycler_inv s1" .
  from Cons.IH[OF this w r] show ?case .
qed

lemma acquire_fresh:
  assumes "recycler_inv (r, out)" "fst (acquireCell r ty fi) = Some c"
  shows "ckey c \<notin> ckey ` set out"
  using acquired_in_pool[OF assms(2)] recycler_invD(4)[OF assms(1), of ty] by blast

lemma getCell_fresh:
  assumes "recycler_inv (r, out)"
  shows "ckey (fst (getCell r ty fi)) \<notin> ckey ` set out"
  using getCell_cases[of r ty fi]
proof (elim disjE conjE exE)
  assume "getCell r ty fi = createCell r ty fi"
  with created_fresh(1)[OF assms, of ty fi] show ?thesis by simp
next
  fix c assume c: "fst (acquireCell r ty fi) = Some c" "getCell r ty fi = (c, snd (acquireCell r ty fi))"
  with acquire_fresh[OF assms c(1)] show ?thesis by simp
qed

text \<open>The bound on the pools, for maxima that are counts.\<close>

lemma is_count_succ:
  assumes "is_count m" "real k < m"
  shows "real (Suc k) \<le> m"
proof -
  from assms(1) have m: "m = of_int \<lfloor>m\<rfloor>" by (simp add: is_count_def)
  from assms(2) have "real k < of_int \<lfloor>m\<rfloor>" by (subst m[symmetric])
  then have "int k < \<lfloor>m\<rfloor>" by (metis of_int_less_iff of_int_of_nat_eq)
  then have "int (Suc k) \<le> \<lfloor>m\<rfloor>" by simp
  then have "real_of_int (int (Suc k)) \<le> of_int \<lfloor>m\<rfloor>" by (simp only: of_int_le_iff)
  then show ?thesis by (subst m) simp
qed

lemma pools_boundedD:
  assumes "pools_bounded cm r"
  shows "pools r ty = None \<Longrightarrow> cm ty = defaultMaxPoolSize r"
    and "pools r ty = Some pool \<Longrightarrow> maxSize pool = cm ty"
    and "pools r ty = Some pool \<Longrightarrow> real (length (cells pool)) \<le> cm ty"
  using assms[unfolded pools_bounded_def, rule_format, of ty] by simp_all

lemma pools_boundedI:
  assumes "\<And>ty. pools r ty = None \<Longrightarrow> cm ty = defaultMaxPoolSize r"
    and "\<And>ty pool. pools r ty = Some pool \<Longrightarrow> maxSize pool = cm ty \<and> real (length (cells pool)) \<le> cm ty"
  shows "pools_bounded cm r"
  unfolding pools_bounded_def using assms by (auto split: option.splits)

lemma bounded_acquire:
  assumes "pools_bounded cm r"
  shows "pools_bounded cm (snd (acquireCell r ty fi))"
proof (cases "pools r ty = None \<or> (\<exists>pool. pools r ty = Some pool \<and> cells pool = [])")
  case True
  with assms show ?thesis by (simp add: acquireCell_empty)
next
  case False
  then obtain pool where p: "pools r ty = Some pool" "cells pool \<noteq> []" by auto
  note a = acquireCell_pop[OF p, of fi]
  note b = pools_boundedD[OF assms]
  show ?thesis
  proof (rule pools_boundedI)
    fix t assume "pools (snd (acquireCell r ty fi)) t = None"
    then have "pools r t = None" unfolding a(2) by (simp split: if_splits)
    from b(1)[OF this] show "cm t = defaultMaxPoolSize (snd (acquireCell r ty fi))" by (simp add: a(4))
  next
    fix t pl assume q: "pools (snd (acquireCell r ty fi)) t = Some pl"
    show "maxSize pl = cm t \<and> real (length (cells pl)) \<le> cm t"
    proof (cases "t = ty")
      case True
      with q have "pl = pool\<lparr>cells := butlast (cells pool)\<rparr>" unfolding a(2) by simp
      with b(2,3)[OF p(1)] True show ?thesis by simp
    next
      case False
      with q have "pools r t = Some pl" unfolding a(2) by simp
      with b(2,3) show ?thesis by blast
    qed
  qed
qed

lemma bounded_release:
  assumes bd: "pools_bounded cm r" and cnt: "\<forall>ty. is_count (cm ty)"
  shows "pools_bounded cm (releaseCell r c)"
proof -
  note b = pools_boundedD[OF bd]
  define pool where "pool = (case pools r (itemType c) of
       None \<Rightarrow> \<lparr>pool_type = itemType c, cells = [], maxSize = defaultMaxPoolSize r\<rparr>
     | Some pl \<Rightarrow> pl)"
  define pool' where "pool' = (if real (length (cells pool)) < maxSize pool
       then pool\<lparr>cells := cells pool @ [c]\<rparr> else pool)"
  have P: "pools (releaseCell r c) = (pools r)(itemType c \<mapsto> pool')"
    unfolding pool'_def pool_def by (simp add: releaseCell_pools Let_def)
  from cnt have c0: "is_count (cm (itemType c))" by simp
  then have nn: "0 \<le> cm (itemType c)" by (simp add: is_count_def)
  have m: "maxSize pool = cm (itemType c)" and l: "real (length (cells pool)) \<le> cm (itemType c)"
    using b(1,2,3)[of "itemType c"] nn by (auto simp: pool_def split: option.splits)
  have m': "maxSize pool' = cm (itemType c)" using m by (simp add: pool'_def)
  have l': "real (length (cells pool')) \<le> cm (itemType c)"
  proof (cases "real (length (cells pool)) < maxSize pool")
    case True
    with is_count_succ[OF c0, of "length (cells pool)"] m show ?thesis by (simp add: pool'_def)
  next
    case False
    with l show ?thesis by (simp add: pool'_def)
  qed
  show ?thesis
  proof (rule pools_boundedI)
    fix t assume "pools (releaseCell r c) t = None"
    then have "pools r t = None" unfolding P by (simp split: if_splits)
    from b(1)[OF this] show "cm t = defaultMaxPoolSize (releaseCell r c)"
      by (simp add: releaseCell_counter)
  next
    fix t pl assume q: "pools (releaseCell r c) t = Some pl"
    show "maxSize pl = cm t \<and> real (length (cells pl)) \<le> cm t"
    proof (cases "t = itemType c")
      case True
      with q have "pl = pool'" unfolding P by simp
      with m' l' True show ?thesis by simp
    next
      case False
      with q have "pools r t = Some pl" unfolding P by simp
      with b(2,3) show ?thesis by blast
    qed
  qed
qed

lemma bounded_setMaxPoolSize:
  assumes bd: "pools_bounded cm r" and n: "is_count n" and s: "setMaxPoolSize r ty n = Some r'"
  shows "pools_bounded (cm(ty := n)) r'"
proof -
  note b = pools_boundedD[OF bd]
  note f = setMaxPoolSize_Some[OF s]
  from n have n0: "0 \<le> n" and nf: "n = of_int \<lfloor>n\<rfloor>" by (simp_all add: is_count_def)
  have tk: "real (length (take (nat \<lfloor>n\<rfloor>) cs)) \<le> n" for cs :: "RecycledCell list"
  proof -
    have "length (take (nat \<lfloor>n\<rfloor>) cs) \<le> nat \<lfloor>n\<rfloor>" by simp
    then have "int (length (take (nat \<lfloor>n\<rfloor>) cs)) \<le> int (nat \<lfloor>n\<rfloor>)"
      by (simp only: of_nat_le_iff)
    moreover have "int (nat \<lfloor>n\<rfloor>) = \<lfloor>n\<rfloor>" using n0 by simp
    ultimately have "int (length (take (nat \<lfloor>n\<rfloor>) cs)) \<le> \<lfloor>n\<rfloor>" by simp
    then have "real_of_int (int (length (take (nat \<lfloor>n\<rfloor>) cs))) \<le> of_int \<lfloor>n\<rfloor>"
      by (simp only: of_int_le_iff)
    then show ?thesis by (subst nf) simp
  qed
  show ?thesis
  proof (rule pools_boundedI)
    fix t assume "pools r' t = None"
    then have "t \<noteq> ty" "pools r t = None" unfolding f(1) by (auto split: if_splits)
    with b(1) show "(cm(ty := n)) t = defaultMaxPoolSize r'" by (simp add: f(3))
  next
    fix t pl assume q: "pools r' t = Some pl"
    show "maxSize pl = (cm(ty := n)) t \<and> real (length (cells pl)) \<le> (cm(ty := n)) t"
    proof (cases "t = ty")
      case True
      with q have "pl = (case pools r ty of
              None \<Rightarrow> \<lparr>pool_type = ty, cells = [], maxSize = n\<rparr>
            | Some pool \<Rightarrow> pool\<lparr>maxSize := n, cells := take (nat \<lfloor>n\<rfloor>) (cells pool)\<rparr>)"
        unfolding f(1) by simp
      with True n0 tk show ?thesis by (auto split: option.splits)
    next
      case False
      with q have "pools r t = Some pl" unfolding f(1) by simp
      with b(2,3) False show ?thesis by auto
    qed
  qed
qed

lemma bounded_create:
  assumes "pools_bounded cm r"
  shows "pools_bounded cm (snd (createCell r ty fi))"
proof (rule pools_boundedI)
  fix t assume "pools (snd (createCell r ty fi)) t = None"
  then have "pools r t = None" by (simp add: createCell_fields)
  from pools_boundedD(1)[OF assms this] show "cm t = defaultMaxPoolSize (snd (createCell r ty fi))"
    by (simp add: createCell_fields)
next
  fix t pl assume "pools (snd (createCell r ty fi)) t = Some pl"
  then have "pools r t = Some pl" by (simp add: createCell_fields)
  from pools_boundedD(2,3)[OF assms this]
  show "maxSize pl = cm t \<and> real (length (cells pl)) \<le> cm t" by simp
qed

lemma bounded_get:
  assumes "pools_bounded cm r"
  shows "pools_bounded cm (snd (getCell r ty fi))"
  using getCell_cases[of r ty fi] bounded_create[OF assms, of ty fi] bounded_acquire[OF assms, of ty fi]
  by auto

lemma bounded_run:
  assumes "pools_bounded cm (fst s)" "\<forall>ty. is_count (cm ty)" "count_sizes calls"
  shows "\<exists>s'. recycler_steps s calls = Some s' \<and> pools_bounded (configured cm calls) (fst s')"
  using assms
proof (induction calls arbitrary: s cm)
  case Nil
  then show ?case by simp
next
  case (Cons call calls)
  obtain r out where s: "s = (r, out)" by (cases s)
  from Cons.prems(1) have bd: "pools_bounded cm r" by (simp add: s)
  show ?case
  proof (cases call)
    case (AcquireCell ty fi)
    from Cons.prems(3) have cs: "count_sizes calls" by (simp add: AcquireCell)
    let ?s1 = "(snd (acquireCell r ty fi),
           (case fst (acquireCell r ty fi) of None \<Rightarrow> out | Some c \<Rightarrow> c # out))"
    have "pools_bounded cm (fst ?s1)" using bounded_acquire[OF bd] by simp
    from Cons.IH[OF this Cons.prems(2) cs] show ?thesis
      by (simp add: s AcquireCell acquire_step del: recycler_step.simps)
  next
    case (GetCell ty fi)
    from Cons.prems(3) have cs: "count_sizes calls" by (simp add: GetCell)
    let ?s1 = "(snd (getCell r ty fi), fst (getCell r ty fi) # out)"
    have "pools_bounded cm (fst ?s1)" using bounded_get[OF bd] by simp
    from Cons.IH[OF this Cons.prems(2) cs] show ?thesis
      by (simp add: s GetCell)
  next
    case (ReleaseCell c)
    from Cons.prems(3) have cs: "count_sizes calls" by (simp add: ReleaseCell)
    let ?s1 = "(releaseCell r c, remove1 c out)"
    have "pools_bounded cm (fst ?s1)" using bounded_release[OF bd Cons.prems(2)] by simp
    from Cons.IH[OF this Cons.prems(2) cs] show ?thesis
      by (simp add: s ReleaseCell)
  next
    case (SetMaxPoolSize ty n)
    from Cons.prems(3) have n: "is_count n" and cs: "count_sizes calls"
      by (simp_all add: SetMaxPoolSize)
    from n have "0 \<le> n" by (simp add: is_count_def)
    from setMaxPoolSize_returns[OF this, of r ty] obtain r' where r': "setMaxPoolSize r ty n = Some r'" ..
    have b1: "pools_bounded (cm(ty := n)) (fst (r', out))"
      using bounded_setMaxPoolSize[OF bd n r'] by simp
    have c1: "\<forall>t. is_count ((cm(ty := n)) t)" using Cons.prems(2) n by simp
    from Cons.IH[OF b1 c1 cs] obtain s' where x: "recycler_steps (r', out) calls = Some s'
        \<and> pools_bounded (configured (cm(ty := n)) calls) (fst s')"
      by blast
    have e1: "recycler_steps s (call # calls) = recycler_steps (r', out) calls"
      by (simp add: s SetMaxPoolSize r')
    have e2: "configured cm (call # calls) = configured (cm(ty := n)) calls"
      unfolding SetMaxPoolSize by (rule configured.simps)
    show ?thesis unfolding e1 e2 using x by (rule exI)
  qed
qed

lemma bounded_init: "pools_bounded (\<lambda>t. dflt) (createCellRecycler dflt)"
  by (simp add: pools_bounded_def createCellRecycler_def)

lemma well_paired_append:
  "well_paired s (xs @ ys) \<Longrightarrow> well_paired s xs"
proof (induction xs arbitrary: s)
  case Nil
  then show ?case by simp
next
  case (Cons call xs)
  then show ?case by (auto split: option.splits)
qed

lemma count_sizes_append: "count_sizes (xs @ ys) \<Longrightarrow> count_sizes xs"
  by (induction xs rule: count_sizes.induct) simp_all

text \<open>
  Claim C7, as amended. Take any run of \<open>acquireCell\<close>, \<open>getCell\<close>, \<open>releaseCell\<close> and
  \<open>setMaxPoolSize\<close> calls on a fresh recycler in which every release gives back a cell
  that was handed out and not released since. When the default maximum and every size
  given to \<open>setMaxPoolSize\<close> are counts (whole numbers that are not negative), every call
  of the run returns, and afterwards no pool holds more cells than the maximum configured
  for its type: the size of the last \<open>setMaxPoolSize\<close> for the type, or the default when
  there was none. For maxima of any kind, after a run whose calls all returned, the cell
  that \<open>getCell\<close> (or \<open>acquireCell\<close>) hands out next is none of the cells that are handed
  out and not yet released. A beginning of such a run is such a run (\<open>well_paired_append\<close>,
  \<open>count_sizes_append\<close>), so this holds at every point of a run.
\<close>

theorem recycler_bounded_and_exclusive:
  assumes "well_paired (createCellRecycler dflt, []) calls"
  shows "(is_count dflt \<and> count_sizes calls \<longrightarrow>
            (\<exists>r out. recycler_run dflt calls = Some (r, out)
               \<and> (\<forall>ty pool. pools r ty = Some pool \<longrightarrow>
                     real (length (cells pool)) \<le> configured_max dflt calls ty)))
     \<and> (\<forall>r out. recycler_run dflt calls = Some (r, out) \<longrightarrow>
            (\<forall>ty fi. ckey (fst (getCell r ty fi)) \<notin> ckey ` set out)
          \<and> (\<forall>ty fi c. fst (acquireCell r ty fi) = Some c \<longrightarrow> ckey c \<notin> ckey ` set out))"
proof (intro conjI impI allI)
  assume a: "is_count dflt \<and> count_sizes calls"
  have "pools_bounded (\<lambda>t. dflt) (fst (createCellRecycler dflt, []))"
    by (simp add: bounded_init)
  from bounded_run[OF this, of calls] a
  obtain s' where s': "recycler_steps (createCellRecycler dflt, []) calls = Some s'"
    and b: "pools_bounded (configured (\<lambda>t. dflt) calls) (fst s')"
    by auto
  obtain r out where ro: "s' = (r, out)" by (cases s')
  have "\<forall>ty pool. pools r ty = Some pool \<longrightarrow>
      real (length (cells pool)) \<le> configured_max dflt calls ty"
    using pools_boundedD(3)[OF b] by (simp add: ro configured_max_def)
  with s' ro show "\<exists>r out. recycler_run dflt calls = Some (r, out)
      \<and> (\<forall>ty pool. pools r ty = Some pool \<longrightarrow>
            real (length (cells pool)) \<le> configured_max dflt calls ty)"
    by (simp add: recycler_run_def)
next
  fix r out ty fi
  assume "recycler_run dflt calls = Some (r, out)"
  then have "recycler_inv (r, out)"
    using inv_run[OF inv_init assms] by (simp add: recycler_run_def)
  then show "ckey (fst (getCell r ty fi)) \<notin> ckey ` set out" by (rule getCell_fresh)
next
  fix r out ty fi c
  assume "recycler_run dflt calls = Some (r, out)" and c: "fst (acquireCell r ty fi) = Some c"
  then have "recycler_inv (r, out)"
    using inv_run[OF inv_init assms] by (simp add: recycler_run_def)
  from acquire_fresh[OF this c] show "ckey c \<notin> ckey ` set out" .
qed

lemmas recycler_eval = recycler_run_def createCellRecycler_def getCell_def
  acquireCell_def createCell_def generateCellKey_def releaseCell_def setMaxPoolSize_def
  Let_def decimal_digit digit_char_def free_list_length_def outstanding_def

lemma example_run:
  "well_paired (createCellRecycler 10, []) example_calls"
  "outstanding (recycler_run 10 example_calls) =
     Some [\<lparr>ckey = ''b-3'', itemType = ''b'', cell_flatIndex = 6\<rparr>,
           \<lparr>ckey = ''a-1'', itemType = ''a'', cell_flatIndex = 5\<rparr>]"
  "free_list_length (recycler_run 10 example_calls) ''a'' = Some 0"
  by (simp_all add: example_calls_def recycler_eval)

lemma example_sizes:
  "is_count 10" "count_sizes example_calls" "configured_max 10 example_calls ''a'' = 1"
  by (simp_all add: is_count_def example_calls_def configured_max_def)

text \<open>
  A pool of maximum size 1: two cells are created, both are released (the second is
  dropped), the first is handed out again, and a cell of another type is created.
\<close>

theorem recycler_bounded_and_exclusive_witness:
  "well_paired (createCellRecycler 10, []) example_calls
   \<and> is_count 10 \<and> count_sizes example_calls
   \<and> configured_max 10 example_calls ''a'' = 1
   \<and> free_list_length (recycler_run 10 example_calls) ''a'' = Some 0
   \<and> outstanding (recycler_run 10 example_calls) =
       Some [\<lparr>ckey = ''b-3'', itemType = ''b'', cell_flatIndex = 6\<rparr>,
             \<lparr>ckey = ''a-1'', itemType = ''a'', cell_flatIndex = 5\<rparr>]
   \<and> (case recycler_run 10 example_calls of
         None \<Rightarrow> False
       | Some s \<Rightarrow> ckey (fst (getCell (fst s) ''a'' 7)) \<notin> ckey ` set (snd s))"
proof -
  from recycler_bounded_and_exclusive[OF example_run(1)] example_sizes(1,2)
  obtain r out where r: "recycler_run 10 example_calls = Some (r, out)"
    and x: "\<forall>ty fi. ckey (fst (getCell r ty fi)) \<notin> ckey ` set out"
    by blast
  from x have "ckey (fst (getCell r ''a'' 7)) \<notin> ckey ` set out" by blast
  with r example_run example_sizes show ?thesis by simp
qed

text \<open>
  The claim C7 as stated fails for maxima that are not counts. With the maximum one and
  a half for a type, two released cells are both kept: the free list holds 2 cells. With
  the maximum \<open>-1\<close> set on a pool that exists, the loop of \<open>setMaxPoolSize\<close> does not
  end.
\<close>

theorem recycler_maximum_counterexample:
  "well_paired (createCellRecycler 10, []) fractional_calls
   \<and> configured_max 10 fractional_calls ''a'' = 3 / 2
   \<and> free_list_length (recycler_run 10 fractional_calls) ''a'' = Some 2
   \<and> well_paired (createCellRecycler 10, []) negative_calls
   \<and> recycler_run 10 negative_calls = None"
proof -
  have a: "well_paired (createCellRecycler 10, []) fractional_calls"
    "free_list_length (recycler_run 10 fractional_calls) ''a'' = Some 2"
    by (simp_all add: fractional_calls_def recycler_eval)
  have b: "configured_max 10 fractional_calls ''a'' = 3 / 2"
    by (simp add: fractional_calls_def configured_max_def)
  have c: "well_paired (createCellRecycler 10, []) negative_calls"
    "recycler_run 10 negative_calls = None"
    by (simp_all add: negative_calls_def recycler_eval trim_pool_negative)
  from a b c show ?thesis by simp
qed

subsection \<open>The viewability tracker\<close>

lemma uniform_ready_reachable: "reachable uniform_ready"
  unfolding uniform_ready_def by (intro reachable.after_getContentSize uniform_reachable)

lemma uniform_ready_eq: "uniform_ready = ensureLayoutsComputed uniform_positioner"
  by (simp add: uniform_ready_def getContentSize_def Let_def)

lemma uniform_ready_fixed: "ensureLayoutsComputed uniform_ready = uniform_ready"
  by (simp add: uniform_ready_eq ensureLayoutsComputed_def Let_def)

lemma uniform_ready_fields:
  "flattenedData uniform_ready = uniform_items"
  "horizontal uniform_ready = False"
  "containerWidth uniform_ready = 0"
  by (simp_all add: uniform_ready_eq ensure_fields uniform_fields)

lemma uniform_ready_sizes: "getItemSize uniform_ready i = 50"
proof -
  have "getItemSize uniform_ready = getItemSize uniform_positioner"
    unfolding uniform_ready_eq by (rule getItemSize_cong) (simp_all add: ensure_fields)
  then show ?thesis by (simp add: uniform_sizes)
qed

lemma uniform_ready_offsets: "offset_of uniform_ready i = 50 * real i"
  by (simp add: offset_of_def uniform_ready_sizes)

lemma uniform_ready_layout:
  "getLayoutForIndex uniform_ready i =
     ((if 0 \<le> i \<and> i < 6 then \<lparr>rx = 0, ry = 50 * real (nat i), width = 0, height = 50\<rparr>
       else zeroRect), uniform_ready)"
proof -
  have "fst (getLayoutForIndex uniform_ready i) =
     (if 0 \<le> i \<and> i < 6 then \<lparr>rx = 0, ry = 50 * real (nat i), width = 0, height = 50\<rparr>
       else zeroRect)"
    by (simp add: getLayoutForIndex_eq[OF reachable_consistent[OF uniform_ready_reachable]]
        uniform_ready_fields uniform_fields(2) layout_of_def uniform_ready_sizes
        uniform_ready_offsets crossAxis_def)
  moreover have "snd (getLayoutForIndex uniform_ready i) = uniform_ready"
    by (simp add: getLayoutForIndex_def Let_def uniform_ready_fixed)
  ultimately show ?thesis by (simp add: prod_eq_iff)
qed

lemma uniform_ready_range_snd: "snd (getVisibleRange uniform_ready so vs ov) = uniform_ready"
  by (simp add: getVisibleRange_def Let_def uniform_ready_fixed)

lemma uniform_ready_range:
  "\<exists>s e. fst (getVisibleRange uniform_ready so vs ov) = (int s, int e) \<and> s < 6 \<and> e < 6
     \<and> (\<forall>i<s. 50 * real (Suc i) \<le> max 0 (so - ov))
     \<and> (s < 5 \<longrightarrow> max 0 (so - ov) < 50 * real (Suc s))
     \<and> (\<forall>i. e < i \<and> i < 6 \<longrightarrow> so + vs + ov \<le> 50 * real i)
     \<and> (0 < e \<longrightarrow> 50 * real e < so + vs + ov)"
proof -
  have n: "0 < length (flattenedData uniform_ready)" by (simp add: uniform_ready_fields uniform_fields)
  have nn: "\<forall>j<length (flattenedData uniform_ready). 0 \<le> getItemSize uniform_ready (int j)"
    by (simp add: uniform_ready_sizes)
  from getVisibleRange_offsets[OF reachable_consistent[OF uniform_ready_reachable] n nn, where so=so and vs=vs and ov=ov]
  show ?thesis by (simp add: uniform_ready_fields uniform_fields uniform_ready_offsets)
qed

lemma range_top: "getVisibleRange uniform_ready 0 100 0 = ((0, 1), uniform_ready)"
proof -
  from uniform_ready_range[where so=0 and vs=100 and ov=0]
  obtain s e where r: "fst (getVisibleRange uniform_ready 0 100 0) = (int s, int e)"
    and b: "s < 6" "e < 6" "\<forall>i<s. 50 * real (Suc i) \<le> 0"
      "\<forall>i. e < i \<and> i < 6 \<longrightarrow> 100 \<le> 50 * real i" "0 < e \<longrightarrow> 50 * real e < 100"
    by auto
  have "s = 0" using b(3) by (cases s) auto
  moreover have "e = 1"
  proof -
    have "e < 2" using b(5) by (cases "0 < e") auto
    moreover have "\<not> e < 1" using b(4) by auto
    ultimately show ?thesis by simp
  qed
  ultimately show ?thesis using r uniform_ready_range_snd[of 0 100 0] by (simp add: prod_eq_iff)
qed

lemma range_bottom: "getVisibleRange uniform_ready 200 100 0 = ((4, 5), uniform_ready)"
proof -
  from uniform_ready_range[where so=200 and vs=100 and ov=0]
  obtain s e where r: "fst (getVisibleRange uniform_ready 200 100 0) = (int s, int e)"
    and b: "s < 6" "e < 6" "\<forall>i<s. 50 * real (Suc i) \<le> 200"
      "s < 5 \<longrightarrow> 200 < 50 * real (Suc s)"
      "\<forall>i. e < i \<and> i < 6 \<longrightarrow> 300 \<le> 50 * real i"
    by auto
  have "s = 4"
  proof -
    have "\<not> 4 < s" using b(3) by auto
    moreover have "\<not> s < 4" using b(4) by auto
    ultimately show ?thesis by simp
  qed
  moreover have "e = 5"
  proof -
    have "\<not> e < 5" using b(5) by auto
    with b(2) show ?thesis by simp
  qed
  ultimately show ?thesis using r uniform_ready_range_snd[of 200 100 0] by (simp add: prod_eq_iff)
qed

lemma visit_index_eq:
  assumes "getLayoutForIndex (ps_positioner st) i = (L, ps_positioner st)"
  shows "visit_index t now i st =
     (if isItemViewable t i L then
        st\<lparr>newViewable := (if i \<in> set (newViewable st) then newViewable st else newViewable st @ [i]),
           ps_tracked := (ps_tracked st)(i \<mapsto> visited (config t) now i (ps_tracked st i)),
           changed := (if promotes (config t) now (tracked_or_new i now (ps_tracked st i))
                       then changed st @ [createViewToken t i True] else changed st)\<rparr>
      else st)"
  by (simp add: visit_index_def assms Let_def visited_def promotes_def tracked_or_new_def
      cong: if_cong)

lemma visit_fold:
  assumes q: "\<And>i. getLayoutForIndex q i = (L i, q)"
  shows "ps_positioner st = q \<Longrightarrow> distinct xs \<Longrightarrow> set xs \<inter> set (newViewable st) = {} \<Longrightarrow>
     fold (visit_index t now) xs st =
       st\<lparr>newViewable := newViewable st @ filter (\<lambda>i. isItemViewable t i (L i)) xs,
          ps_tracked := (\<lambda>i. if i \<in> set xs \<and> isItemViewable t i (L i)
                              then Some (visited (config t) now i (ps_tracked st i))
                              else ps_tracked st i),
          changed := changed st @ map (\<lambda>i. createViewToken t i True)
             (filter (\<lambda>i. isItemViewable t i (L i)
                           \<and> promotes (config t) now (tracked_or_new i now (ps_tracked st i))) xs)\<rparr>"
proof (induction xs arbitrary: st)
  case Nil
  show ?case by simp
next
  case (Cons x xs)
  have g: "getLayoutForIndex (ps_positioner st) x = (L x, ps_positioner st)"
    using q[of x] Cons.prems(1) by simp
  let ?st = "visit_index t now x st"
  have pos: "ps_positioner ?st = q" using Cons.prems(1) by (simp add: visit_index_eq[OF g])
  have nv: "newViewable ?st = (if isItemViewable t x (L x) then newViewable st @ [x] else newViewable st)"
    using Cons.prems(3) by (simp add: visit_index_eq[OF g])
  have tr: "ps_tracked ?st = (if isItemViewable t x (L x)
        then (ps_tracked st)(x \<mapsto> visited (config t) now x (ps_tracked st x)) else ps_tracked st)"
    by (simp add: visit_index_eq[OF g])
  have ch: "changed ?st = (if isItemViewable t x (L x)
          \<and> promotes (config t) now (tracked_or_new x now (ps_tracked st x))
        then changed st @ [createViewToken t x True] else changed st)"
    by (simp add: visit_index_eq[OF g])
  have d: "distinct xs" "x \<notin> set xs" using Cons.prems(2) by simp_all
  have dj: "set xs \<inter> set (newViewable ?st) = {}"
    using Cons.prems(2,3) by (auto simp: nv)
  have other: "ps_tracked ?st i = ps_tracked st i" if "i \<in> set xs" for i
    using that d(2) by (auto simp: tr)
  have f: "filter (\<lambda>i. isItemViewable t i (L i)
                \<and> promotes (config t) now (tracked_or_new i now (ps_tracked ?st i))) xs
         = filter (\<lambda>i. isItemViewable t i (L i)
                \<and> promotes (config t) now (tracked_or_new i now (ps_tracked st i))) xs"
    by (rule filter_cong) (simp_all add: other)
  have rest: "more ?st = more st" by (simp add: visit_index_eq[OF g])
  show ?case
    apply (simp only: fold_simps)
    apply (subst Cons.IH[OF pos d(1) dj])
    apply (rule pass_state.equality)
        apply (simp_all add: nv ch f rest pos Cons.prems(1))
    apply (rule ext)
    using d(2) apply (auto simp: tr)
    done
qed

lemma leave_index_eq:
  "leave_index t fi st =
     st\<lparr>ps_tracked := (if fi \<notin> set (newViewable st)
                        then (ps_tracked st)(fi := left_view (ps_tracked st fi))
                        else ps_tracked st),
        changed := (if fi \<notin> set (newViewable st) \<and> confirmed (ps_tracked st fi)
                    then changed st @ [createViewToken t fi False] else changed st)\<rparr>"
  by (cases "ps_tracked st fi")
    (auto simp: leave_index_def left_view_def confirmed_def fun_upd_idem)

lemma leave_fold:
  "distinct cv \<Longrightarrow>
     fold (leave_index t) cv st =
       st\<lparr>ps_tracked := (\<lambda>i. if i \<in> set cv \<and> i \<notin> set (newViewable st)
                              then left_view (ps_tracked st i) else ps_tracked st i),
          changed := changed st @ map (\<lambda>i. createViewToken t i False)
             (filter (\<lambda>i. i \<notin> set (newViewable st) \<and> confirmed (ps_tracked st i)) cv)\<rparr>"
proof (induction cv arbitrary: st)
  case Nil
  show ?case by simp
next
  case (Cons x cv)
  let ?st = "leave_index t x st"
  have nv: "newViewable ?st = newViewable st" by (simp add: leave_index_eq)
  have tr: "ps_tracked ?st = (if x \<notin> set (newViewable st)
        then (ps_tracked st)(x := left_view (ps_tracked st x)) else ps_tracked st)"
    by (simp add: leave_index_eq)
  have ch: "changed ?st = (if x \<notin> set (newViewable st) \<and> confirmed (ps_tracked st x)
        then changed st @ [createViewToken t x False] else changed st)"
    by (simp add: leave_index_eq)
  have d: "distinct cv" "x \<notin> set cv" using Cons.prems by simp_all
  have other: "ps_tracked ?st i = ps_tracked st i" if "i \<in> set cv" for i
    using that d(2) by (auto simp: tr)
  have f: "filter (\<lambda>i. i \<notin> set (newViewable st) \<and> confirmed (ps_tracked ?st i)) cv
         = filter (\<lambda>i. i \<notin> set (newViewable st) \<and> confirmed (ps_tracked st i)) cv"
    by (rule filter_cong) (simp_all add: other)
  have rest: "more ?st = more st" "ps_positioner ?st = ps_positioner st"
    by (simp_all add: leave_index_eq)
  show ?case
    apply (simp only: fold_simps)
    apply (subst Cons.IH[OF d(1)])
    apply (rule pass_state.equality)
        apply (simp_all add: nv ch f rest)
    apply (rule ext)
    using d(2) apply (auto simp: tr)
    done
qed

lemma ensure_idem: "ensureLayoutsComputed (ensureLayoutsComputed p) = ensureLayoutsComputed p"
  by (simp add: ensureLayoutsComputed_def Let_def)

lemma getVisibleRange_snd: "snd (getVisibleRange p so vs ov) = ensureLayoutsComputed p"
  by (simp add: getVisibleRange_def Let_def)

lemma getLayoutForIndex_ready:
  "getLayoutForIndex (ensureLayoutsComputed p) i =
     (fst (getLayoutForIndex (ensureLayoutsComputed p) i), ensureLayoutsComputed p)"
  by (simp add: getLayoutForIndex_def Let_def ensure_idem)

lemma computeViewability_pass:
  assumes gate: "\<not> (waitForInteraction (config t) \<and> \<not> hasInteracted t)"
    and cv: "distinct (currentlyViewable t)"
  shows "currentlyViewable (fst (computeViewability t now)) =
           filter (qualifies t) [fst (fst (getVisibleRange (vt_layoutPositioner t) (scrollOffset t)
              (viewportSize t) 0))..snd (fst (getVisibleRange (vt_layoutPositioner t)
              (scrollOffset t) (viewportSize t) 0))]"
    and "trackedItems (fst (computeViewability t now)) =
           (\<lambda>i. if qualifies t i then Some (visited (config t) now i (trackedItems t i))
                 else if i \<in> set (currentlyViewable t) then left_view (trackedItems t i)
                 else trackedItems t i)"
    and "events (snd (computeViewability t now)) =
           map (\<lambda>i. (i, True)) (filter (\<lambda>i. qualifies t i
               \<and> promotes (config t) now (tracked_or_new i now (trackedItems t i)))
             [fst (fst (getVisibleRange (vt_layoutPositioner t) (scrollOffset t)
              (viewportSize t) 0))..snd (fst (getVisibleRange (vt_layoutPositioner t)
              (scrollOffset t) (viewportSize t) 0))])
           @ map (\<lambda>i. (i, False)) (filter (\<lambda>i. \<not> qualifies t i
               \<and> confirmed (trackedItems t i)) (currentlyViewable t))"
    and "config (fst (computeViewability t now)) = config t"
    and "vt_layoutPositioner (fst (computeViewability t now)) = ensureLayoutsComputed (vt_layoutPositioner t)"
    and "scrollOffset (fst (computeViewability t now)) = scrollOffset t"
    and "viewportSize (fst (computeViewability t now)) = viewportSize t"
    and "vt_flattenedData (fst (computeViewability t now)) = vt_flattenedData t"
    and "vt_horizontal (fst (computeViewability t now)) = vt_horizontal t"
    and "hasInteracted (fst (computeViewability t now)) = hasInteracted t"
    and "pendingUpdate (fst (computeViewability t now)) = pendingUpdate t"
proof -
  let ?vr = "getVisibleRange (vt_layoutPositioner t) (scrollOffset t) (viewportSize t) 0"
  let ?q = "ensureLayoutsComputed (vt_layoutPositioner t)"
  let ?L = "\<lambda>i. fst (getLayoutForIndex ?q i)"
  let ?xs = "[fst (fst ?vr)..snd (fst ?vr)]"
  let ?st0 = "\<lparr>newViewable = [], ps_tracked = trackedItems t, changed = [], ps_positioner = snd ?vr\<rparr>"
  let ?st1 = "fold (visit_index t now) ?xs ?st0"
  let ?st2 = "fold (leave_index t) (currentlyViewable t) ?st1"
  have Q: "qualifies t i \<longleftrightarrow> i \<in> set ?xs \<and> isItemViewable t i (?L i)" for i
    by (auto simp: qualifies_def Let_def getVisibleRange_snd)
  have v: "?st1 = ?st0\<lparr>newViewable := filter (\<lambda>i. isItemViewable t i (?L i)) ?xs,
          ps_tracked := (\<lambda>i. if i \<in> set ?xs \<and> isItemViewable t i (?L i)
                              then Some (visited (config t) now i (trackedItems t i))
                              else trackedItems t i),
          changed := map (\<lambda>i. createViewToken t i True)
             (filter (\<lambda>i. isItemViewable t i (?L i)
                           \<and> promotes (config t) now (tracked_or_new i now (trackedItems t i))) ?xs)\<rparr>"
    using visit_fold[of ?q ?L ?st0 ?xs t now, OF getLayoutForIndex_ready]
    by (simp add: getVisibleRange_snd cong: if_cong)
  have "filter (\<lambda>i. isItemViewable t i (?L i)) ?xs = filter (qualifies t) ?xs"
    by (rule filter_cong) (simp_all add: Q)
  then have nvq: "newViewable ?st1 = filter (qualifies t) ?xs"
    unfolding v by simp
  have nvs: "i \<in> set (newViewable ?st1) \<longleftrightarrow> qualifies t i" for i
    unfolding nvq by (auto simp: Q)
  have tr1: "ps_tracked ?st1 i = (if qualifies t i then Some (visited (config t) now i (trackedItems t i))
        else trackedItems t i)" for i
    unfolding v by (simp add: Q)
  note l = leave_fold[OF cv, of t ?st1]
  have r: "computeViewability t now =
     (let t' = t\<lparr>vt_layoutPositioner := ps_positioner ?st2, trackedItems := ps_tracked ?st2,
                  currentlyViewable := newViewable ?st2\<rparr>
      in if changed ?st2 \<noteq> [] then
           (t', Some (map (\<lambda>i. createViewToken t' i True)
                       (filter (\<lambda>i. case trackedItems t' i of None \<Rightarrow> False | Some tr \<Rightarrow> t_isViewable tr)
                          (currentlyViewable t')), changed ?st2))
         else (t', None))"
  proof -
    have g: "(waitForInteraction (config t) \<and> \<not> hasInteracted t) = False" using gate by blast
    show ?thesis by (simp only: computeViewability_def g if_False Let_def fst_conv snd_conv)
  qed
  have fstr: "fst (computeViewability t now) =
      t\<lparr>vt_layoutPositioner := ps_positioner ?st2, trackedItems := ps_tracked ?st2,
        currentlyViewable := newViewable ?st2\<rparr>"
    unfolding r by (simp add: Let_def)
  have ev: "events (snd (computeViewability t now)) =
      map (\<lambda>tok. (tok_index tok, isViewable tok)) (changed ?st2)"
    unfolding r by (simp add: Let_def events_def)
  have nv2: "newViewable ?st2 = filter (qualifies t) ?xs" unfolding l by (simp add: nvq)
  have tr2: "ps_tracked ?st2 = (\<lambda>i. if qualifies t i then Some (visited (config t) now i (trackedItems t i))
                 else if i \<in> set (currentlyViewable t) then left_view (trackedItems t i)
                 else trackedItems t i)"
    unfolding l by (rule ext) (simp add: nvs tr1)
  have "ps_positioner ?st2 = ps_positioner ?st1" by (simp add: l)
  moreover have "ps_positioner ?st1 = ?q" unfolding v by (simp add: getVisibleRange_snd)
  ultimately have pos2: "ps_positioner ?st2 = ?q" by simp
  have ch2: "changed ?st2 = map (\<lambda>i. createViewToken t i True)
             (filter (\<lambda>i. isItemViewable t i (?L i)
                           \<and> promotes (config t) now (tracked_or_new i now (trackedItems t i))) ?xs)
          @ map (\<lambda>i. createViewToken t i False)
             (filter (\<lambda>i. \<not> qualifies t i \<and> confirmed (trackedItems t i)) (currentlyViewable t))"
  proof -
    have "filter (\<lambda>i. i \<notin> set (newViewable ?st1) \<and> confirmed (ps_tracked ?st1 i)) (currentlyViewable t)
        = filter (\<lambda>i. \<not> qualifies t i \<and> confirmed (trackedItems t i)) (currentlyViewable t)"
      by (rule filter_cong) (auto simp: nvs tr1)
    then show ?thesis unfolding l by (simp add: v)
  qed
  have tok: "(\<lambda>tok. (tok_index tok, isViewable tok)) (createViewToken t i b) = (i, b)" for i b
    by (simp add: createViewToken_def split: option.splits)
  show "currentlyViewable (fst (computeViewability t now)) = filter (qualifies t) ?xs"
    unfolding fstr by (simp add: nv2)
  show "trackedItems (fst (computeViewability t now)) =
           (\<lambda>i. if qualifies t i then Some (visited (config t) now i (trackedItems t i))
                 else if i \<in> set (currentlyViewable t) then left_view (trackedItems t i)
                 else trackedItems t i)"
    unfolding fstr by (simp add: tr2)
  have "filter (\<lambda>i. isItemViewable t i (?L i)
            \<and> promotes (config t) now (tracked_or_new i now (trackedItems t i))) ?xs
      = filter (\<lambda>i. qualifies t i
            \<and> promotes (config t) now (tracked_or_new i now (trackedItems t i))) ?xs"
    by (rule filter_cong) (simp_all add: Q)
  then show "events (snd (computeViewability t now)) =
           map (\<lambda>i. (i, True)) (filter (\<lambda>i. qualifies t i
               \<and> promotes (config t) now (tracked_or_new i now (trackedItems t i))) ?xs)
           @ map (\<lambda>i. (i, False)) (filter (\<lambda>i. \<not> qualifies t i
               \<and> confirmed (trackedItems t i)) (currentlyViewable t))"
    unfolding ev ch2 by (simp add: tok comp_def)
  show "config (fst (computeViewability t now)) = config t"
    and "vt_layoutPositioner (fst (computeViewability t now)) = ?q"
    and "scrollOffset (fst (computeViewability t now)) = scrollOffset t"
    and "viewportSize (fst (computeViewability t now)) = viewportSize t"
    and "vt_flattenedData (fst (computeViewability t now)) = vt_flattenedData t"
    and "vt_horizontal (fst (computeViewability t now)) = vt_horizontal t"
    and "hasInteracted (fst (computeViewability t now)) = hasInteracted t"
    and "pendingUpdate (fst (computeViewability t now)) = pendingUpdate t"
    unfolding fstr by (simp_all add: pos2)
qed

lemma timer_after_scroll:
  "timer_fires (updateScrollOffset t offset) now =
     computeViewability (t\<lparr>scrollOffset := offset, pendingUpdate := False\<rparr>) now"
  by (simp add: timer_fires_def updateScrollOffset_def scheduleUpdate_def)

lemma upto_pairs: "[0..1] = [0, 1::int]" "[4..5] = [4, 5::int]"
  by (simp_all add: upto.simps)

lemma std_example: "std example_tracker"
  by (simp add: std_def example_tracker_def setViewportSize_def createViewabilityTracker_def
      scheduleUpdate_def)

lemma example_tracker_fields:
  "trackedItems example_tracker = Map.empty" "currentlyViewable example_tracker = []"
  by (simp_all add: example_tracker_def setViewportSize_def createViewabilityTracker_def
      scheduleUpdate_def)

lemma qualifies_top:
  assumes "std t"
  shows "qualifies (t\<lparr>scrollOffset := 0, pendingUpdate := False\<rparr>) i \<longleftrightarrow> i = 0 \<or> i = 1"
proof -
  have "isItemViewable (t\<lparr>scrollOffset := 0, pendingUpdate := False\<rparr>) i
          \<lparr>rx = 0, ry = 50 * real (nat i), width = 0, height = 50\<rparr>" if "i = 0 \<or> i = 1"
    using that assms
    by (auto simp: std_def isItemViewable_def Let_def DEFAULT_VIEWABILITY_CONFIG_def)
  then show ?thesis
    using assms by (auto simp: qualifies_def Let_def std_def range_top uniform_ready_layout)
qed

lemma qualifies_bottom:
  assumes "std t"
  shows "qualifies (t\<lparr>scrollOffset := 200, pendingUpdate := False\<rparr>) i \<longleftrightarrow> i = 4 \<or> i = 5"
proof -
  have "isItemViewable (t\<lparr>scrollOffset := 200, pendingUpdate := False\<rparr>) i
          \<lparr>rx = 0, ry = 50 * real (nat i), width = 0, height = 50\<rparr>" if "i = 4 \<or> i = 5"
    using that assms
    by (auto simp: std_def isItemViewable_def Let_def DEFAULT_VIEWABILITY_CONFIG_def)
  then show ?thesis
    using assms by (auto simp: qualifies_def Let_def std_def range_bottom uniform_ready_layout)
qed

lemma pass_top:
  assumes "std t"
  shows "std (fst (timer_fires (updateScrollOffset t 0) now))"
    and "currentlyViewable (fst (timer_fires (updateScrollOffset t 0) now)) = [0, 1]"
    and "trackedItems (fst (timer_fires (updateScrollOffset t 0) now)) i =
           (if i = 0 \<or> i = 1 then Some (visited DEFAULT_VIEWABILITY_CONFIG now i (trackedItems t i))
            else if i \<in> set (currentlyViewable t) then left_view (trackedItems t i)
            else trackedItems t i)"
    and "events (snd (timer_fires (updateScrollOffset t 0) now)) =
           map (\<lambda>i. (i, True)) (filter (\<lambda>i.
               promotes DEFAULT_VIEWABILITY_CONFIG now (tracked_or_new i now (trackedItems t i))) [0, 1])
           @ map (\<lambda>i. (i, False)) (filter (\<lambda>i. i \<noteq> 0 \<and> i \<noteq> 1 \<and> confirmed (trackedItems t i))
               (currentlyViewable t))"
proof -
  let ?t = "t\<lparr>scrollOffset := 0, pendingUpdate := False\<rparr>"
  have g: "\<not> (waitForInteraction (config ?t) \<and> \<not> hasInteracted ?t)"
    using assms by (simp add: std_def DEFAULT_VIEWABILITY_CONFIG_def)
  have d: "distinct (currentlyViewable ?t)" using assms by (simp add: std_def)
  note p = computeViewability_pass[OF g d, of now]
  have r: "getVisibleRange (vt_layoutPositioner ?t) (scrollOffset ?t) (viewportSize ?t) 0
      = ((0, 1), uniform_ready)"
    using assms by (simp add: std_def range_top)
  have c: "config ?t = DEFAULT_VIEWABILITY_CONFIG" using assms by (simp add: std_def)
  show "currentlyViewable (fst (timer_fires (updateScrollOffset t 0) now)) = [0, 1]"
    unfolding timer_after_scroll p(1) r by (simp add: upto_pairs qualifies_top[OF assms])
  then show "std (fst (timer_fires (updateScrollOffset t 0) now))"
    using assms unfolding timer_after_scroll std_def
    by (simp add: p(4-9) uniform_ready_fixed)
  show "trackedItems (fst (timer_fires (updateScrollOffset t 0) now)) i =
           (if i = 0 \<or> i = 1 then Some (visited DEFAULT_VIEWABILITY_CONFIG now i (trackedItems t i))
            else if i \<in> set (currentlyViewable t) then left_view (trackedItems t i)
            else trackedItems t i)"
    unfolding timer_after_scroll p(2) by (simp add: qualifies_top[OF assms] c)
  show "events (snd (timer_fires (updateScrollOffset t 0) now)) =
           map (\<lambda>i. (i, True)) (filter (\<lambda>i.
               promotes DEFAULT_VIEWABILITY_CONFIG now (tracked_or_new i now (trackedItems t i))) [0, 1])
           @ map (\<lambda>i. (i, False)) (filter (\<lambda>i. i \<noteq> 0 \<and> i \<noteq> 1 \<and> confirmed (trackedItems t i))
               (currentlyViewable t))"
    unfolding timer_after_scroll p(3) r
    by (simp add: upto_pairs qualifies_top[OF assms] c)
qed

lemma pass_bottom:
  assumes "std t"
  shows "std (fst (timer_fires (updateScrollOffset t 200) now))"
    and "currentlyViewable (fst (timer_fires (updateScrollOffset t 200) now)) = [4, 5]"
    and "trackedItems (fst (timer_fires (updateScrollOffset t 200) now)) i =
           (if i = 4 \<or> i = 5 then Some (visited DEFAULT_VIEWABILITY_CONFIG now i (trackedItems t i))
            else if i \<in> set (currentlyViewable t) then left_view (trackedItems t i)
            else trackedItems t i)"
    and "events (snd (timer_fires (updateScrollOffset t 200) now)) =
           map (\<lambda>i. (i, True)) (filter (\<lambda>i.
               promotes DEFAULT_VIEWABILITY_CONFIG now (tracked_or_new i now (trackedItems t i))) [4, 5])
           @ map (\<lambda>i. (i, False)) (filter (\<lambda>i. i \<noteq> 4 \<and> i \<noteq> 5 \<and> confirmed (trackedItems t i))
               (currentlyViewable t))"
proof -
  let ?t = "t\<lparr>scrollOffset := 200, pendingUpdate := False\<rparr>"
  have g: "\<not> (waitForInteraction (config ?t) \<and> \<not> hasInteracted ?t)"
    using assms by (simp add: std_def DEFAULT_VIEWABILITY_CONFIG_def)
  have d: "distinct (currentlyViewable ?t)" using assms by (simp add: std_def)
  note p = computeViewability_pass[OF g d, of now]
  have r: "getVisibleRange (vt_layoutPositioner ?t) (scrollOffset ?t) (viewportSize ?t) 0
      = ((4, 5), uniform_ready)"
    using assms by (simp add: std_def range_bottom)
  have c: "config ?t = DEFAULT_VIEWABILITY_CONFIG" using assms by (simp add: std_def)
  show "currentlyViewable (fst (timer_fires (updateScrollOffset t 200) now)) = [4, 5]"
    unfolding timer_after_scroll p(1) r by (simp add: upto_pairs qualifies_bottom[OF assms])
  then show "std (fst (timer_fires (updateScrollOffset t 200) now))"
    using assms unfolding timer_after_scroll std_def
    by (simp add: p(4-9) uniform_ready_fixed)
  show "trackedItems (fst (timer_fires (updateScrollOffset t 200) now)) i =
           (if i = 4 \<or> i = 5 then Some (visited DEFAULT_VIEWABILITY_CONFIG now i (trackedItems t i))
            else if i \<in> set (currentlyViewable t) then left_view (trackedItems t i)
            else trackedItems t i)"
    unfolding timer_after_scroll p(2) by (simp add: qualifies_bottom[OF assms] c)
  show "events (snd (timer_fires (updateScrollOffset t 200) now)) =
           map (\<lambda>i. (i, True)) (filter (\<lambda>i.
               promotes DEFAULT_VIEWABILITY_CONFIG now (tracked_or_new i now (trackedItems t i))) [4, 5])
           @ map (\<lambda>i. (i, False)) (filter (\<lambda>i. i \<noteq> 4 \<and> i \<noteq> 5 \<and> confirmed (trackedItems t i))
               (currentlyViewable t))"
    unfolding timer_after_scroll p(3) r
    by (simp add: upto_pairs qualifies_bottom[OF assms] c)
qed

lemmas tracking_defs = visited_def promotes_def tracked_or_new_def left_view_def confirmed_def
  DEFAULT_VIEWABILITY_CONFIG_def

text \<open>
  Claim C3 says that an index that stops qualifying returns to untracked, and is a fresh
  candidate when it qualifies again. The code keeps the tracked entry: for a confirmed
  index it clears \<open>isViewable\<close> and sets \<open>becameVisibleAt\<close> to null, and the entry is
  created (and its timer started) only when there is none. On six items of size 50 with
  a viewport of 100 and the default configuration (minimum view time 250): the indices 0
  and 1 qualify at the passes at times 0 and 300 and are confirmed at 300; at 400 the
  list is scrolled to offset 200 and they exit; at 500 it is scrolled back and they
  qualify again, and still do at 1000. No pass after the exit emits an event: after 500
  ms of renewed visibility index 0 is viewable for the engine's queries, its tracked
  entry is not viewable and has no start time.
\<close>

theorem confirmed_item_never_reenters:
  "map events (snd (run_passes example_tracker [(0, 0), (0, 300), (200, 400), (0, 500), (0, 1000)]))
     = [[], [(0, True), (1, True)], [(0, False), (1, False)], [], []]
   \<and> currentlyViewable (fst (run_passes example_tracker
         [(0, 0), (0, 300), (200, 400), (0, 500), (0, 1000)])) = [0, 1]
   \<and> trackedItems (fst (run_passes example_tracker
         [(0, 0), (0, 300), (200, 400), (0, 500), (0, 1000)])) 0
     = Some \<lparr>t_flatIndex = 0, t_isViewable = False, lastVisibleTime = 1000, becameVisibleAt = None\<rparr>"
proof -
  define T1 where "T1 = fst (timer_fires (updateScrollOffset example_tracker 0) 0)"
  define T2 where "T2 = fst (timer_fires (updateScrollOffset T1 0) 300)"
  define T3 where "T3 = fst (timer_fires (updateScrollOffset T2 200) 400)"
  define T4 where "T4 = fst (timer_fires (updateScrollOffset T3 0) 500)"
  define T5 where "T5 = fst (timer_fires (updateScrollOffset T4 0) 1000)"
  have s1: "std T1" unfolding T1_def by (rule pass_top(1)[OF std_example])
  have s2: "std T2" unfolding T2_def by (rule pass_top(1)[OF s1])
  have s3: "std T3" unfolding T3_def by (rule pass_bottom(1)[OF s2])
  have s4: "std T4" unfolding T4_def by (rule pass_top(1)[OF s3])
  have e1: "events (snd (timer_fires (updateScrollOffset example_tracker 0) 0)) = []"
    by (simp add: pass_top(4)[OF std_example] example_tracker_fields tracking_defs)
  have t1: "trackedItems T1 i = (if i = 0 \<or> i = 1
      then Some \<lparr>t_flatIndex = i, t_isViewable = False, lastVisibleTime = 0, becameVisibleAt = Some 0\<rparr>
      else None)" for i
    unfolding T1_def by (simp add: pass_top(3)[OF std_example] example_tracker_fields tracking_defs)
  have c1: "currentlyViewable T1 = [0, 1]" unfolding T1_def by (rule pass_top(2)[OF std_example])
  have e2: "events (snd (timer_fires (updateScrollOffset T1 0) 300)) = [(0, True), (1, True)]"
    by (simp add: pass_top(4)[OF s1] t1 c1 tracking_defs)
  have t2: "trackedItems T2 i = (if i = 0 \<or> i = 1
      then Some \<lparr>t_flatIndex = i, t_isViewable = True, lastVisibleTime = 300, becameVisibleAt = Some 0\<rparr>
      else None)" for i
    unfolding T2_def by (simp add: pass_top(3)[OF s1] t1 c1 tracking_defs)
  have c2: "currentlyViewable T2 = [0, 1]" unfolding T2_def by (rule pass_top(2)[OF s1])
  have e3: "events (snd (timer_fires (updateScrollOffset T2 200) 400)) = [(0, False), (1, False)]"
    by (simp add: pass_bottom(4)[OF s2] t2 c2 tracking_defs)
  have t3: "trackedItems T3 0 =
      Some \<lparr>t_flatIndex = 0, t_isViewable = False, lastVisibleTime = 300, becameVisibleAt = None\<rparr>"
    "trackedItems T3 1 =
      Some \<lparr>t_flatIndex = 1, t_isViewable = False, lastVisibleTime = 300, becameVisibleAt = None\<rparr>"
    "trackedItems T3 4 =
      Some \<lparr>t_flatIndex = 4, t_isViewable = False, lastVisibleTime = 400, becameVisibleAt = Some 400\<rparr>"
    "trackedItems T3 5 =
      Some \<lparr>t_flatIndex = 5, t_isViewable = False, lastVisibleTime = 400, becameVisibleAt = Some 400\<rparr>"
    unfolding T3_def by (simp_all add: pass_bottom(3)[OF s2] t2 c2 tracking_defs)
  have c3: "currentlyViewable T3 = [4, 5]" unfolding T3_def by (rule pass_bottom(2)[OF s2])
  have e4: "events (snd (timer_fires (updateScrollOffset T3 0) 500)) = []"
    by (simp add: pass_top(4)[OF s3] t3 c3 tracking_defs)
  have t4: "trackedItems T4 0 =
      Some \<lparr>t_flatIndex = 0, t_isViewable = False, lastVisibleTime = 500, becameVisibleAt = None\<rparr>"
    "trackedItems T4 1 =
      Some \<lparr>t_flatIndex = 1, t_isViewable = False, lastVisibleTime = 500, becameVisibleAt = None\<rparr>"
    unfolding T4_def by (simp_all add: pass_top(3)[OF s3] t3 c3 tracking_defs)
  have c4: "currentlyViewable T4 = [0, 1]" unfolding T4_def by (rule pass_top(2)[OF s3])
  have e5: "events (snd (timer_fires (updateScrollOffset T4 0) 1000)) = []"
    by (simp add: pass_top(4)[OF s4] t4 c4 tracking_defs)
  have t5: "trackedItems T5 0 =
      Some \<lparr>t_flatIndex = 0, t_isViewable = False, lastVisibleTime = 1000, becameVisibleAt = None\<rparr>"
    unfolding T5_def by (simp add: pass_top(3)[OF s4] t4 c4 tracking_defs)
  have c5: "currentlyViewable T5 = [0, 1]" unfolding T5_def by (rule pass_top(2)[OF s4])
  have r: "run_passes example_tracker [(0, 0), (0, 300), (200, 400), (0, 500), (0, 1000)] =
     (T5, [snd (timer_fires (updateScrollOffset example_tracker 0) 0),
           snd (timer_fires (updateScrollOffset T1 0) 300),
           snd (timer_fires (updateScrollOffset T2 200) 400),
           snd (timer_fires (updateScrollOffset T3 0) 500),
           snd (timer_fires (updateScrollOffset T4 0) 1000)])"
    by (simp add: Let_def T1_def T2_def T3_def T4_def T5_def)
  show ?thesis unfolding r by (simp add: e1 e2 e3 e4 e5 c5 t5)
qed

text \<open>
  Claim C5 says that an item visible for less than the minimum view time never has an
  "entered" event. The code measures the dwell from the first time the index qualified,
  also when it did not qualify in between. Same list and configuration: the indices 0
  and 1 qualify at the pass at time 0, do not qualify at the passes at times 1 and 200
  (scroll offset 200), and qualify again at the pass at time 300, which emits "entered"
  for both, 300 ms after the first pass.
\<close>

theorem entered_without_dwell:
  "map events (snd (run_passes example_tracker [(0, 0), (200, 1), (200, 200), (0, 300)]))
     = [[], [], [], [(0, True), (1, True)]]
   \<and> map (\<lambda>passes. isIndexVisible (fst (run_passes example_tracker passes)) 0)
       [[(0, 0)], [(0, 0), (200, 1)], [(0, 0), (200, 1), (200, 200)],
        [(0, 0), (200, 1), (200, 200), (0, 300)]]
     = [True, False, False, True]"
proof -
  define T1 where "T1 = fst (timer_fires (updateScrollOffset example_tracker 0) 0)"
  define T2 where "T2 = fst (timer_fires (updateScrollOffset T1 200) 1)"
  define T3 where "T3 = fst (timer_fires (updateScrollOffset T2 200) 200)"
  define T4 where "T4 = fst (timer_fires (updateScrollOffset T3 0) 300)"
  have s1: "std T1" unfolding T1_def by (rule pass_top(1)[OF std_example])
  have s2: "std T2" unfolding T2_def by (rule pass_bottom(1)[OF s1])
  have s3: "std T3" unfolding T3_def by (rule pass_bottom(1)[OF s2])
  have e1: "events (snd (timer_fires (updateScrollOffset example_tracker 0) 0)) = []"
    by (simp add: pass_top(4)[OF std_example] example_tracker_fields tracking_defs)
  have t1: "trackedItems T1 i = (if i = 0 \<or> i = 1
      then Some \<lparr>t_flatIndex = i, t_isViewable = False, lastVisibleTime = 0, becameVisibleAt = Some 0\<rparr>
      else None)" for i
    unfolding T1_def by (simp add: pass_top(3)[OF std_example] example_tracker_fields tracking_defs)
  have c1: "currentlyViewable T1 = [0, 1]" unfolding T1_def by (rule pass_top(2)[OF std_example])
  have e2: "events (snd (timer_fires (updateScrollOffset T1 200) 1)) = []"
    by (simp add: pass_bottom(4)[OF s1] t1 c1 tracking_defs)
  have t2: "trackedItems T2 0 =
      Some \<lparr>t_flatIndex = 0, t_isViewable = False, lastVisibleTime = 0, becameVisibleAt = Some 0\<rparr>"
    "trackedItems T2 1 =
      Some \<lparr>t_flatIndex = 1, t_isViewable = False, lastVisibleTime = 0, becameVisibleAt = Some 0\<rparr>"
    "trackedItems T2 4 =
      Some \<lparr>t_flatIndex = 4, t_isViewable = False, lastVisibleTime = 1, becameVisibleAt = Some 1\<rparr>"
    "trackedItems T2 5 =
      Some \<lparr>t_flatIndex = 5, t_isViewable = False, lastVisibleTime = 1, becameVisibleAt = Some 1\<rparr>"
    unfolding T2_def by (simp_all add: pass_bottom(3)[OF s1] t1 c1 tracking_defs)
  have c2: "currentlyViewable T2 = [4, 5]" unfolding T2_def by (rule pass_bottom(2)[OF s1])
  have e3: "events (snd (timer_fires (updateScrollOffset T2 200) 200)) = []"
    by (simp add: pass_bottom(4)[OF s2] t2 c2 tracking_defs)
  have t3: "trackedItems T3 0 =
      Some \<lparr>t_flatIndex = 0, t_isViewable = False, lastVisibleTime = 0, becameVisibleAt = Some 0\<rparr>"
    "trackedItems T3 1 =
      Some \<lparr>t_flatIndex = 1, t_isViewable = False, lastVisibleTime = 0, becameVisibleAt = Some 0\<rparr>"
    "trackedItems T3 4 =
      Some \<lparr>t_flatIndex = 4, t_isViewable = False, lastVisibleTime = 200, becameVisibleAt = Some 1\<rparr>"
    "trackedItems T3 5 =
      Some \<lparr>t_flatIndex = 5, t_isViewable = False, lastVisibleTime = 200, becameVisibleAt = Some 1\<rparr>"
    unfolding T3_def by (simp_all add: pass_bottom(3)[OF s2] t2 c2 tracking_defs)
  have c3: "currentlyViewable T3 = [4, 5]" unfolding T3_def by (rule pass_bottom(2)[OF s2])
  have e4: "events (snd (timer_fires (updateScrollOffset T3 0) 300)) = [(0, True), (1, True)]"
    by (simp add: pass_top(4)[OF s3] t3 c3 tracking_defs)
  have c4: "currentlyViewable T4 = [0, 1]" unfolding T4_def by (rule pass_top(2)[OF s3])
  have r1: "fst (run_passes example_tracker [(0, 0)]) = T1"
    and r2: "fst (run_passes example_tracker [(0, 0), (200, 1)]) = T2"
    and r3: "fst (run_passes example_tracker [(0, 0), (200, 1), (200, 200)]) = T3"
    by (simp_all add: Let_def T1_def T2_def T3_def)
  have r: "run_passes example_tracker [(0, 0), (200, 1), (200, 200), (0, 300)] =
     (T4, [snd (timer_fires (updateScrollOffset example_tracker 0) 0),
           snd (timer_fires (updateScrollOffset T1 200) 1),
           snd (timer_fires (updateScrollOffset T2 200) 200),
           snd (timer_fires (updateScrollOffset T3 0) 300)])"
    by (simp add: Let_def T1_def T2_def T3_def T4_def)
  show ?thesis
    by (simp add: r r1 r2 r3 e1 e2 e3 e4 c1 c2 c3 c4 isIndexVisible_def del: run_passes.simps)
qed

lemma tracked_state_kept:
  assumes "distinct (currentlyViewable t)" "trackedItems t i = Some tr"
  shows "trackedItems (fst (computeViewability t now)) i \<noteq> None"
proof (cases "waitForInteraction (config t) \<and> \<not> hasInteracted t")
  case True
  with assms(2) show ?thesis by (simp add: computeViewability_def)
next
  case False
  from computeViewability_pass(2)[OF False assms(1), of now] assms(2)
  show ?thesis by (simp add: left_view_def)
qed

lemma entered_iff:
  assumes "\<not> (waitForInteraction (config t) \<and> \<not> hasInteracted t)"
    and "distinct (currentlyViewable t)"
  shows "(i, True) \<in> set (events (snd (computeViewability t now))) \<longleftrightarrow>
     qualifies t i \<and> promotes (config t) now (tracked_or_new i now (trackedItems t i))"
proof -
  have "qualifies t i \<Longrightarrow> i \<in> set [fst (fst (getVisibleRange (vt_layoutPositioner t)
      (scrollOffset t) (viewportSize t) 0))..snd (fst (getVisibleRange (vt_layoutPositioner t)
      (scrollOffset t) (viewportSize t) 0))]"
    by (simp add: qualifies_def Let_def)
  then show ?thesis
    unfolding computeViewability_pass(3)[OF assms] by auto
qed

lemma candidate_entered_iff:
  assumes "\<not> (waitForInteraction (config t) \<and> \<not> hasInteracted t)"
    and "distinct (currentlyViewable t)"
    and "qualifies t i" "trackedItems t i = Some tr" "\<not> t_isViewable tr"
    and "becameVisibleAt tr = Some since"
  shows "(i, True) \<in> set (events (snd (computeViewability t now))) \<longleftrightarrow>
     minimumViewTime (config t) \<le> now - since"
  using assms(3-6) by (simp add: entered_iff[OF assms(1,2)] promotes_def tracked_or_new_def)

lemma confirmed_not_entered_again:
  assumes "\<not> (waitForInteraction (config t) \<and> \<not> hasInteracted t)"
    and "distinct (currentlyViewable t)"
    and "trackedItems t i = Some tr" "t_isViewable tr"
  shows "(i, True) \<notin> set (events (snd (computeViewability t now)))"
  using assms(3,4) by (simp add: entered_iff[OF assms(1,2)] promotes_def tracked_or_new_def)

lemma exited_never_enters:
  assumes "distinct (currentlyViewable t)"
    and "trackedItems t i = Some tr" "\<not> t_isViewable tr" "becameVisibleAt tr = None"
  shows "(i, True) \<notin> set (events (snd (computeViewability t now)))
     \<and> (\<exists>tr'. trackedItems (fst (computeViewability t now)) i = Some tr'
            \<and> \<not> t_isViewable tr' \<and> becameVisibleAt tr' = None)"
proof (cases "waitForInteraction (config t) \<and> \<not> hasInteracted t")
  case True
  with assms(2-4) show ?thesis by (simp add: computeViewability_def events_def)
next
  case False
  have "(i, True) \<notin> set (events (snd (computeViewability t now)))"
    using assms(2-4) by (simp add: entered_iff[OF False assms(1)] promotes_def tracked_or_new_def)
  moreover have "\<exists>tr'. trackedItems (fst (computeViewability t now)) i = Some tr'
            \<and> \<not> t_isViewable tr' \<and> becameVisibleAt tr' = None"
    using assms(2-4)
    by (simp add: computeViewability_pass(2)[OF False assms(1)] visited_def promotes_def
        tracked_or_new_def left_view_def)
  ultimately show ?thesis by simp
qed

end
